theory Spec2Isabelle
  imports Main "HOL-Library.Sublist"
begin

section \<open>Text primitives of the Python runtime\<close>

text \<open>
  The pipeline of \<^verbatim>\<open>app/query_engine.py\<close> works on Python \<^verbatim>\<open>str\<close> values, sequences of
  code points. A text is modelled as a \<open>string\<close>, one \<open>char\<close> per code point, which covers
  the code points 0 to 255. The character classes below are those of CPython on that
  range: \<^verbatim>\<open>str.isspace\<close> (used by \<^verbatim>\<open>strip\<close> and by \<^verbatim>\<open>\s\<close>), \<^verbatim>\<open>\d\<close>, \<^verbatim>\<open>\w\<close>, \<^verbatim>\<open>[a-zA-Z0-9]\<close>,
  \<^verbatim>\<open>str.lower\<close> and \<^verbatim>\<open>str.upper\<close>.
\<close>

definition newline :: char where
  "newline = CHR 0x0A"

definition isspace :: "char \<Rightarrow> bool" where
  "isspace c = (let n = (of_char c :: nat) in
     (9 \<le> n \<and> n \<le> 13) \<or> (28 \<le> n \<and> n \<le> 32) \<or> n = 133 \<or> n = 160)"

definition isdigit :: "char \<Rightarrow> bool" where
  "isdigit c = (let n = (of_char c :: nat) in 48 \<le> n \<and> n \<le> 57)"

definition ascii_alnum :: "char \<Rightarrow> bool" where
  "ascii_alnum c = (let n = (of_char c :: nat) in
     (48 \<le> n \<and> n \<le> 57) \<or> (65 \<le> n \<and> n \<le> 90) \<or> (97 \<le> n \<and> n \<le> 122))"

definition isword :: "char \<Rightarrow> bool" where
  "isword c = (let n = (of_char c :: nat) in
     (48 \<le> n \<and> n \<le> 57) \<or> (65 \<le> n \<and> n \<le> 90) \<or> n = 95 \<or> (97 \<le> n \<and> n \<le> 122) \<or>
     n = 170 \<or> n = 178 \<or> n = 179 \<or> n = 181 \<or> n = 185 \<or> n = 186 \<or>
     (188 \<le> n \<and> n \<le> 190) \<or> (192 \<le> n \<and> n \<le> 214) \<or> (216 \<le> n \<and> n \<le> 246) \<or>
     (248 \<le> n \<and> n \<le> 255))"

definition lower_char :: "char \<Rightarrow> char" where
  "lower_char c = (let n = (of_char c :: nat) in
     if (65 \<le> n \<and> n \<le> 90) \<or> (192 \<le> n \<and> n \<le> 214) \<or> (216 \<le> n \<and> n \<le> 222)
     then char_of (n + 32) else c)"

text \<open>
  \<^verbatim>\<open>str.upper\<close> maps one code point to one or more: \<^verbatim>\<open>\xdf\<close> becomes \<^verbatim>\<open>SS\<close>. The upper-case
  forms of code points 181 and 255 lie beyond 255; they are left in place here, which
  no comparison with an ASCII text can observe.
\<close>

definition upper_char :: "char \<Rightarrow> string" where
  "upper_char c = (let n = (of_char c :: nat) in
     if n = 223 then ''SS''
     else if (97 \<le> n \<and> n \<le> 122) \<or> (224 \<le> n \<and> n \<le> 246) \<or> (248 \<le> n \<and> n \<le> 254)
     then [char_of (n - 32)] else [c])"

definition upper :: "string \<Rightarrow> string" where
  "upper s = concat (map upper_char s)"

definition lstrip :: "string \<Rightarrow> string" where
  "lstrip s = dropWhile isspace s"

definition rstrip :: "string \<Rightarrow> string" where
  "rstrip s = rev (dropWhile isspace (rev s))"

definition strip :: "string \<Rightarrow> string" where
  "strip s = rstrip (lstrip s)"

text \<open>\<^verbatim>\<open>s.rstrip(";")\<close>: every trailing occurrence of the given character is removed.\<close>

definition rstrip_char :: "char \<Rightarrow> string \<Rightarrow> string" where
  "rstrip_char d s = rev (dropWhile (\<lambda>c. c = d) (rev s))"

text \<open>\<^verbatim>\<open>needle in hay\<close>.\<close>

fun contains :: "string \<Rightarrow> string \<Rightarrow> bool" where
  "contains needle [] = (needle = [])"
| "contains needle (c # cs) = (prefix needle (c # cs) \<or> contains needle cs)"

text \<open>\<^verbatim>\<open>s.split(d)\<close> for a one-character separator: always at least one part.\<close>

fun split :: "char \<Rightarrow> string \<Rightarrow> string list" where
  "split d [] = [[]]"
| "split d (c # cs) =
     (if c = d then [] # split d cs
      else (let ps = split d cs in (c # hd ps) # tl ps))"

text \<open>\<^verbatim>\<open>sep.join(parts)\<close>.\<close>

fun join :: "string \<Rightarrow> string list \<Rightarrow> string" where
  "join sep [] = []"
| "join sep [p] = p"
| "join sep (p # q # ps) = p @ sep @ join sep (q # ps)"

text \<open>Decimal rendering of an integer, as \<^verbatim>\<open>str\<close> and f-strings produce it.\<close>

definition digit_char :: "nat \<Rightarrow> char" where
  "digit_char d = char_of (48 + d)"

fun str_nat :: "nat \<Rightarrow> string" where
  "str_nat n = (if n < 10 then [digit_char n] else str_nat (n div 10) @ [digit_char (n mod 10)])"

declare str_nat.simps [simp del]

definition str_int :: "int \<Rightarrow> string" where
  "str_int i = (if i < 0 then CHR ''-'' # str_nat (nat (- i)) else str_nat (nat i))"


section \<open>The regular expressions of the pipeline\<close>

text \<open>
  The source calls \<^verbatim>\<open>re.match\<close>, \<^verbatim>\<open>re.search\<close> and \<^verbatim>\<open>re.sub\<close> on six patterns. Each pattern
  is a sequence of: one character of a class (a literal is a class of one character, or of
  its two cases under \<^verbatim>\<open>re.IGNORECASE\<close>), a greedy \<^verbatim>\<open>*\<close> or \<^verbatim>\<open>+\<close> over a class, and the
  zero-width \<^verbatim>\<open>^\<close>, \<^verbatim>\<open>$\<close> and \<^verbatim>\<open>\b\<close>.
\<close>

datatype atom =
    Chr "char \<Rightarrow> bool"
  | Star "char \<Rightarrow> bool"
  | Plus "char \<Rightarrow> bool"
  | Bol
  | Eol
  | Wordb

type_synonym regex = "atom list"

text \<open>
  \<^verbatim>\<open>\b\<close> holds where exactly one of the previous and the next character is a word
  character; beyond either end of the text there is none.
\<close>

definition at_word_boundary :: "char option \<Rightarrow> string \<Rightarrow> bool" where
  "at_word_boundary prev s =
     ((case prev of None \<Rightarrow> False | Some c \<Rightarrow> isword c) \<noteq>
      (case s of [] \<Rightarrow> False | c # _ \<Rightarrow> isword c))"

text \<open>
  \<open>rx pat prev s\<close> matches \<open>pat\<close> at one position of a text: \<open>prev\<close> is the character
  before the position (\<open>None\<close> at the start of the text) and \<open>s\<close> the text from the position
  on. It returns the same pair for the position after the match that the backtracking
  matcher finds first: a greedy repetition takes one more character whenever the rest of
  the pattern then still matches.
\<close>

fun rx :: "regex \<Rightarrow> char option \<Rightarrow> string \<Rightarrow> (char option \<times> string) option" where
  "rx [] prev s = Some (prev, s)"
| "rx (Chr p # r) prev [] = None"
| "rx (Chr p # r) prev (c # cs) = (if p c then rx r (Some c) cs else None)"
| "rx (Star p # r) prev [] = rx r prev []"
| "rx (Star p # r) prev (c # cs) =
     (if p c then
        (case rx (Star p # r) (Some c) cs of
           Some e \<Rightarrow> Some e
         | None \<Rightarrow> rx r prev (c # cs))
      else rx r prev (c # cs))"
| "rx (Plus p # r) prev [] = None"
| "rx (Plus p # r) prev (c # cs) = (if p c then rx (Star p # r) (Some c) cs else None)"
| "rx (Bol # r) prev s = (if prev = None then rx r prev s else None)"
| "rx (Eol # r) prev s = (if s = [] \<or> s = [newline] then rx r prev s else None)"
| "rx (Wordb # r) prev s = (if at_word_boundary prev s then rx r prev s else None)"

text \<open>\<^verbatim>\<open>re.match(pat, s)\<close> as a truth value: a match at the start of the text.\<close>

definition re_match :: "regex \<Rightarrow> string \<Rightarrow> bool" where
  "re_match pat s = (rx pat None s \<noteq> None)"

text \<open>\<^verbatim>\<open>re.search(pat, s)\<close> as a truth value: a match at some position, the end included.\<close>

fun search_from :: "regex \<Rightarrow> char option \<Rightarrow> string \<Rightarrow> bool" where
  "search_from pat prev [] = (rx pat prev [] \<noteq> None)"
| "search_from pat prev (c # cs) = (rx pat prev (c # cs) \<noteq> None \<or> search_from pat (Some c) cs)"

definition re_search :: "regex \<Rightarrow> string \<Rightarrow> bool" where
  "re_search pat s = search_from pat None s"

text \<open>
  \<^verbatim>\<open>re.sub(pat, repl, s)\<close>: the text is scanned from the left; a match is replaced and the
  scan goes on behind it; where nothing matches, one character is copied. An empty match
  is replaced too and the scan then moves one character on.
\<close>

function sub_from :: "regex \<Rightarrow> string \<Rightarrow> char option \<Rightarrow> string \<Rightarrow> string" where
  "sub_from pat repl prev s =
     (case rx pat prev s of
        Some (prev', s') \<Rightarrow>
          if length s' < length s then repl @ sub_from pat repl prev' s'
          else repl @ (case s of [] \<Rightarrow> [] | c # cs \<Rightarrow> c # sub_from pat repl (Some c) cs)
      | None \<Rightarrow> (case s of [] \<Rightarrow> [] | c # cs \<Rightarrow> c # sub_from pat repl (Some c) cs))"
  by pat_completeness auto
termination
  by (relation "measure (\<lambda>(pat, repl, prev, s). length s)") auto

declare sub_from.simps [simp del]

definition re_sub :: "regex \<Rightarrow> string \<Rightarrow> string \<Rightarrow> string" where
  "re_sub pat repl s = sub_from pat repl None s"

text \<open>A literal text, case-sensitive, and under \<^verbatim>\<open>re.IGNORECASE\<close>.\<close>

definition lit :: "string \<Rightarrow> regex" where
  "lit s = map (\<lambda>c. Chr (\<lambda>x. x = c)) s"

definition lit_i :: "string \<Rightarrow> regex" where
  "lit_i s = map (\<lambda>c. Chr (\<lambda>x. lower_char x = lower_char c)) s"

text \<open>\<^verbatim>\<open>^```[a-zA-Z0-9]*\s*\<close>\<close>

definition fence_open :: regex where
  "fence_open = [Bol] @ lit ''```'' @ [Star ascii_alnum, Star isspace]"

text \<open>\<^verbatim>\<open>\s*```$\<close>\<close>

definition fence_close :: regex where
  "fence_close = [Star isspace] @ lit ''```'' @ [Eol]"

text \<open>\<^verbatim>\<open>^\s*sql\s*\n\<close> with \<^verbatim>\<open>re.IGNORECASE\<close>\<close>

definition sql_line :: regex where
  "sql_line = [Bol, Star isspace] @ lit_i ''sql'' @ [Star isspace, Chr (\<lambda>x. x = newline)]"

text \<open>\<^verbatim>\<open>^\s*SQL\s*:\s*\<close> with \<^verbatim>\<open>re.IGNORECASE\<close>\<close>

definition sql_label :: regex where
  "sql_label = [Bol, Star isspace] @ lit_i ''SQL'' @ [Star isspace] @ lit '':'' @ [Star isspace]"

text \<open>\<^verbatim>\<open>^\s*select\b\<close> with \<^verbatim>\<open>re.IGNORECASE\<close>\<close>

definition select_pat :: regex where
  "select_pat = [Bol, Star isspace] @ lit_i ''select'' @ [Wordb]"

text \<open>\<^verbatim>\<open>\blimit\s+\d+\b\<close> with \<^verbatim>\<open>re.IGNORECASE\<close>\<close>

definition limit_pat :: regex where
  "limit_pat = [Wordb] @ lit_i ''limit'' @ [Plus isspace, Plus isdigit, Wordb]"


section \<open>The pure steps of the pipeline\<close>

text \<open>
  Exceptions are values. \<open>ValueError\<close> is what the source itself raises; \<open>External\<close> is
  any exception raised by a collaborator (model client, prompt template, data store).
  Both carry the text that \<^verbatim>\<open>str(exc)\<close> returns.
\<close>

datatype error = ValueError string | External string

fun str_exc :: "error \<Rightarrow> string" where
  "str_exc (ValueError msg) = msg"
| "str_exc (External msg) = msg"

text \<open>
  \<^verbatim>\<open>_clean_sql\<close>, lines 40 to 53. The two fence substitutions (lines 46, 47), the two label
  substitutions (lines 48, 49) and the choice of the first statement (lines 51 to 53) are
  named, in the order the source applies them.
\<close>

definition strip_fences :: "string \<Rightarrow> string" where
  "strip_fences s = re_sub fence_close [] (re_sub fence_open [] s)"

definition strip_labels :: "string \<Rightarrow> string" where
  "strip_labels s = re_sub sql_label [] (re_sub sql_line [] s)"

definition first_statement :: "string \<Rightarrow> string" where
  "first_statement s =
     (let parts = map strip (split CHR '';'' s);
          first = (case find (\<lambda>p. p \<noteq> []) parts of Some p \<Rightarrow> p | None \<Rightarrow> [])
      in if first \<noteq> [] then first @ '';'' else [])"

definition clean_sql :: "string \<Rightarrow> string" where
  "clean_sql text =
     (let s = strip text in
      if contains ''UNSUPPORTED'' (upper s) then ''UNSUPPORTED''
      else first_statement (strip_labels (strip_fences s)))"

text \<open>\<^verbatim>\<open>_enforce_select_only\<close>, lines 56 to 62.\<close>

definition enforce_select_only :: "string \<Rightarrow> error + string" where
  "enforce_select_only sql =
     (if \<not> re_match select_pat sql then Inl (ValueError ''Only SELECT statements are allowed.'')
      else Inr sql)"

text \<open>
  \<^verbatim>\<open>_apply_limit\<close>, lines 65 to 79. The limit is an \<^verbatim>\<open>Optional[int]\<close>; \<^verbatim>\<open>not limit\<close> holds for
  \<^verbatim>\<open>None\<close> and for \<^verbatim>\<open>0\<close>.
\<close>

definition apply_limit :: "string \<Rightarrow> int option \<Rightarrow> string" where
  "apply_limit sql limit =
     (case limit of
        None \<Rightarrow> sql
      | Some k \<Rightarrow>
          if k = 0 then sql
          else if re_search limit_pat sql then sql
          else (let sql_no_sc = rstrip_char CHR '';'' (rstrip sql)
                in sql_no_sc @ '' LIMIT '' @ str_int k @ '';''))"

text \<open>
  The Limit Enforcer as the specification words it, for comparison with \<open>apply_limit\<close>:
  "strip one trailing ; if present, append LIMIT {limit};", regardless of trailing
  whitespace.
\<close>

definition strip_one_semicolon :: "string \<Rightarrow> string" where
  "strip_one_semicolon s = (if s \<noteq> [] \<and> last s = CHR '';'' then butlast s else s)"

definition apply_limit_as_specified :: "string \<Rightarrow> int option \<Rightarrow> string" where
  "apply_limit_as_specified sql limit =
     (case limit of
        None \<Rightarrow> sql
      | Some k \<Rightarrow>
          if k = 0 then sql
          else if re_search limit_pat sql then sql
          else strip_one_semicolon (rstrip sql) @ '' LIMIT '' @ str_int k @ '';'')"

text \<open>
  \<^verbatim>\<open>_format_rows_for_answer\<close>, lines 82 to 94. A row is a list of scalar values of the data
  store; \<open>to_str\<close> is Python's \<^verbatim>\<open>str\<close> on them.
\<close>

definition format_rows_for_answer :: "('v \<Rightarrow> string) \<Rightarrow> 'v list list \<Rightarrow> string" where
  "format_rows_for_answer to_str rows =
     (if rows = [] then ''No rows matched your query.''
      else if length rows = 1 \<and> length (hd rows) = 1
      then ''The result is '' @ to_str (hd (hd rows)) @ ''.''
      else (let preview = min (length rows) 5
            in ''Found '' @ str_nat (length rows) @ '' row(s). Showing top '' @ str_nat preview @ ''.''))"


section \<open>The collaborators and the effects of a request\<close>

text \<open>
  The module-level handles \<^verbatim>\<open>DB\<close>, \<^verbatim>\<open>LLM\<close> and \<^verbatim>\<open>PROMPT\<close> are collaborators outside the
  pipeline. They are the fields of an environment; each call threads the state \<open>'w\<close> of the
  outside world, so that a collaborator may answer differently on every call, and returns
  either the exception it raises or its result:
  \<^item> \<open>render_prompt question top_k\<close> is \<^verbatim>\<open>DB.get_table_info()\<close>, \<^verbatim>\<open>DB.dialect\<close> and
    \<^verbatim>\<open>PROMPT.format(...)\<close> of lines 115 to 123;
  \<^item> \<open>llm_predict prompt\<close> is \<^verbatim>\<open>LLM.predict(prompt)\<close>;
  \<^item> \<open>exec_driver_sql sql\<close> is lines 136 to 143: the connection, the execution and the
    reading of the result, \<open>None\<close> when \<^verbatim>\<open>result.returns_rows\<close> is false and otherwise the
    columns and the rows;
  \<^item> \<open>str_of\<close> is \<^verbatim>\<open>str\<close> on a scalar value of the store.
  A request records, in order, every call of the model and every statement handed to the
  store.
\<close>

datatype event = LlmCall string | DbExec string

record 'w state =
  calls :: "event list"
  world :: 'w

type_synonym 'v table = "string list \<times> 'v list list"

record ('v, 'w) env =
  render_prompt :: "string \<Rightarrow> int \<Rightarrow> 'w \<Rightarrow> (error + string) \<times> 'w"
  llm_predict :: "string \<Rightarrow> 'w \<Rightarrow> (error + string) \<times> 'w"
  exec_driver_sql :: "string \<Rightarrow> 'w \<Rightarrow> (error + 'v table option) \<times> 'w"
  str_of :: "'v \<Rightarrow> string"

definition record_call :: "event \<Rightarrow> 'w \<Rightarrow> 'w state \<Rightarrow> 'w state" where
  "record_call ev w st = \<lparr>calls = calls st @ [ev], world = w\<rparr>"

text \<open>\<^verbatim>\<open>_generate_sql\<close>, lines 110 to 126.\<close>

definition generate_sql ::
  "('v, 'w) env \<Rightarrow> string \<Rightarrow> int \<Rightarrow> 'w state \<Rightarrow> (error + string) \<times> 'w state" where
  "generate_sql env question top_k st =
     (case render_prompt env question top_k (world st) of
        (Inl exc, w1) \<Rightarrow> (Inl exc, st\<lparr>world := w1\<rparr>)
      | (Inr prompt, w1) \<Rightarrow>
          (case llm_predict env prompt w1 of
             (Inl exc, w2) \<Rightarrow> (Inl exc, record_call (LlmCall prompt) w2 st)
           | (Inr raw, w2) \<Rightarrow>
               (let sql = clean_sql raw
                in (enforce_select_only sql, record_call (LlmCall prompt) w2 st))))"

text \<open>\<^verbatim>\<open>_execute_sql\<close>, lines 129 to 143.\<close>

definition execute_sql ::
  "('v, 'w) env \<Rightarrow> string \<Rightarrow> 'w state \<Rightarrow> (error + 'v table) \<times> 'w state" where
  "execute_sql env sql st =
     (if sql = [] then (Inl (ValueError ''Generated SQL was empty after sanitization.''), st)
      else
        (case exec_driver_sql env sql (world st) of
           (Inl exc, w1) \<Rightarrow> (Inl exc, record_call (DbExec sql) w1 st)
         | (Inr None, w1) \<Rightarrow> (Inr ([], []), record_call (DbExec sql) w1 st)
         | (Inr (Some (columns, rows)), w1) \<Rightarrow> (Inr (columns, rows), record_call (DbExec sql) w1 st)))"

text \<open>\<^verbatim>\<open>_summarize_table\<close>, lines 145 to 169; the prompt is that of lines 153 to 162.\<close>

definition summary_prompt :: "('v \<Rightarrow> string) \<Rightarrow> string \<Rightarrow> string list \<Rightarrow> 'v list list \<Rightarrow> string" where
  "summary_prompt to_str question columns rows =
     (let header = join '' | '' columns;
          sep = join '' | '' (replicate (length columns) ''---'');
          body = join [newline] (map (\<lambda>row. join '' | '' (map to_str row)) (take 30 rows));
          table_md = header @ [newline] @ sep @ [newline] @ body
      in ''The user asked: '' @ [CHR 0x27] @ question @ [CHR 0x27] @ [newline, newline] @
         ''The following table was returned:'' @ [newline, newline] @ table_md @ [newline, newline] @
         ''Write a short, conversational summary of this data. Highlight interesting values, trends, or anomalies.'')"

definition summarize_table ::
  "('v, 'w) env \<Rightarrow> string \<Rightarrow> string list \<Rightarrow> 'v list list \<Rightarrow> 'w state \<Rightarrow> string \<times> 'w state" where
  "summarize_table env question columns rows st =
     (if columns = [] \<or> rows = [] then (''There was no data to summarize.'', st)
      else
        (let prompt = summary_prompt (str_of env) question columns rows
         in (case llm_predict env prompt (world st) of
               (Inr response, w1) \<Rightarrow> (strip response, record_call (LlmCall prompt) w1 st)
             | (Inl exc, w1) \<Rightarrow> (''Here is the data as requested.'', record_call (LlmCall prompt) w1 st))))"

text \<open>\<^verbatim>\<open>QueryResponse\<close> of \<^verbatim>\<open>app/model.py\<close>; Python's \<^verbatim>\<open>None\<close> is \<open>None\<close>.\<close>

record 'v QueryResponse =
  sql :: "string option"
  answer :: string
  error :: "string option"
  columns :: "string list option"
  rows :: "'v list list option"

text \<open>
  \<^verbatim>\<open>process_question\<close>, lines 171 to 203. The handler of line 197 catches every exception
  of the body and builds the response of lines 199 to 203, where \<^verbatim>\<open>columns\<close> and \<^verbatim>\<open>rows\<close>
  keep their default \<^verbatim>\<open>None\<close>. The local variables \<^verbatim>\<open>sql\<close>, \<^verbatim>\<open>columns\<close>, \<^verbatim>\<open>rows\<close> and
  \<^verbatim>\<open>answer\<close> of the source are \<open>sql1\<close> (line 175), \<open>sql2\<close> (line 185), \<open>cols\<close>, \<open>rws\<close> and
  \<open>ans\<close> here, the plain names being the fields of the response.
\<close>

definition failure_response :: "error \<Rightarrow> 'v QueryResponse" where
  "failure_response exc =
     \<lparr>sql = None, answer = ''An error occurred while processing your question.'',
      error = Some (str_exc exc), columns = None, rows = None\<rparr>"

definition refusal_response :: "'v QueryResponse" where
  "refusal_response =
     \<lparr>sql = None, answer = ''Sorry, I cannot answer that question based on the available data.'',
      error = None, columns = Some [], rows = Some []\<rparr>"

definition process_question ::
  "('v, 'w) env \<Rightarrow> string \<Rightarrow> bool \<Rightarrow> int option \<Rightarrow> 'w state \<Rightarrow> 'v QueryResponse \<times> 'w state" where
  "process_question env question return_table limit st =
     (case generate_sql env question 5 st of
        (Inl exc, st1) \<Rightarrow> (failure_response exc, st1)
      | (Inr sql1, st1) \<Rightarrow>
          if upper (strip sql1) = ''UNSUPPORTED'' then (refusal_response, st1)
          else
            (let sql2 = apply_limit sql1 limit
             in (case execute_sql env sql2 st1 of
                   (Inl exc, st2) \<Rightarrow> (failure_response exc, st2)
                 | (Inr (cols, rws), st2) \<Rightarrow>
                     if return_table then
                       (case summarize_table env question cols rws st2 of
                          (ans, st3) \<Rightarrow>
                            (\<lparr>sql = Some sql2, answer = ans, error = None,
                              columns = Some cols, rows = Some rws\<rparr>, st3))
                     else
                       (\<lparr>sql = Some sql2, answer = format_rows_for_answer (str_of env) rws,
                         error = None, columns = None, rows = None\<rparr>, st2))))"

text \<open>
  A scripted environment for running the pipeline on concrete inputs: the prompt is the
  question itself, the model answers from a queue of prepared outcomes (the world state),
  and the store returns one prepared outcome for every statement.
\<close>

definition scripted_env :: "(error + int table option) \<Rightarrow> (int, (error + string) list) env" where
  "scripted_env store_outcome =
     \<lparr>render_prompt = (\<lambda>question top_k w. (Inr question, w)),
      llm_predict = (\<lambda>prompt w. case w of [] \<Rightarrow> (Inl (External ''no answer''), []) | r # rs \<Rightarrow> (r, rs)),
      exec_driver_sql = (\<lambda>sql w. (store_outcome, w)),
      str_of = str_int\<rparr>"

definition start :: "'w \<Rightarrow> 'w state" where
  "start w = \<lparr>calls = [], world = w\<rparr>"


section \<open>Auxiliary notions for the statements\<close>

text \<open>
  The character before a position after the run \<open>xs\<close> has been consumed from a position whose
  previous character was \<open>prev\<close>.
\<close>

definition last_opt :: "char option \<Rightarrow> string \<Rightarrow> char option" where
  "last_opt prev xs = (if xs = [] then prev else Some (last xs))"

text \<open>
  A text that holds nothing but whitespace and semicolons, and the place of the first
  statement in a text: \<open>pre\<close> is blank and ends with a semicolon unless empty, \<open>seg\<close> has no
  semicolon and is not blank, \<open>post\<close> is empty or starts with a semicolon.
\<close>

definition blank :: "string \<Rightarrow> bool" where
  "blank s \<longleftrightarrow> (\<forall>c\<in>set s. isspace c \<or> c = CHR '';'')"

definition stmt_at :: "string \<Rightarrow> string \<Rightarrow> string \<Rightarrow> string \<Rightarrow> bool" where
  "stmt_at s pre seg post \<longleftrightarrow>
     s = pre @ seg @ post \<and> blank pre \<and> (pre = [] \<or> last pre = CHR '';'') \<and>
     CHR '';'' \<notin> set seg \<and> strip seg \<noteq> [] \<and> (post = [] \<or> hd post = CHR '';'')"

text \<open>
  What the pattern \<^verbatim>\<open>\blimit\s+\d+\b\<close> looks for, said without the matcher. A clause starts
  a text when the text is the word "limit" in any case, then whitespace, then digits, and
  what follows is empty or starts with a non-word character; a text has a clause when one
  starts at a position whose previous character, if any, is not a word character.
  \<open>digits_end\<close> is the part of this behind the first whitespace character.
\<close>

definition digits_end :: "string \<Rightarrow> bool" where
  "digits_end t \<longleftrightarrow>
     (\<exists>d v. dropWhile isspace t = d # v \<and> isdigit d \<and>
            (dropWhile isdigit v = [] \<or> \<not> isword (hd (dropWhile isdigit v))))"

definition clause_from :: "string \<Rightarrow> bool" where
  "clause_from s \<longleftrightarrow>
     (\<exists>w ws ds post. s = w @ ws @ ds @ post \<and> map lower_char w = ''limit'' \<and>
        ws \<noteq> [] \<and> (\<forall>c\<in>set ws. isspace c) \<and> ds \<noteq> [] \<and> (\<forall>c\<in>set ds. isdigit c) \<and>
        (post = [] \<or> \<not> isword (hd post)))"

definition has_limit_clause :: "string \<Rightarrow> bool" where
  "has_limit_clause s \<longleftrightarrow>
     (\<exists>pre rest. s = pre @ rest \<and> (pre = [] \<or> \<not> isword (last pre)) \<and> clause_from rest)"

text \<open>
  The end of a statement: \<open>ws\<close> is its trailing whitespace, \<open>semis\<close> the semicolons before
  it, and \<open>base\<close> the rest, which does not end with a semicolon.
\<close>

definition tail_split :: "string \<Rightarrow> string \<Rightarrow> string \<Rightarrow> string \<Rightarrow> bool" where
  "tail_split s base semis ws \<longleftrightarrow>
     s = base @ semis @ ws \<and> (\<forall>c\<in>set ws. isspace c) \<and> (\<forall>c\<in>set semis. c = CHR '';'') \<and>
     (base = [] \<or> last base \<noteq> CHR '';'') \<and> (base @ semis = [] \<or> \<not> isspace (last (base @ semis)))"


section \<open>Facts about the matcher and the character classes\<close>

text \<open>
  A greedy repetition needs no backtracking when the pattern goes on with a character
  outside the repeated class: it takes the whole run.
\<close>

lemma last_opt_simps [simp]:
  "last_opt prev [] = prev"
  "last_opt prev (c # cs) = last_opt (Some c) cs"
  by (simp_all add: last_opt_def)

lemma rx_star_disjoint:
  assumes "\<And>c. p c \<Longrightarrow> \<not> q c"
  shows "rx (Star p # Chr q # r) prev s =
         rx (Chr q # r) (last_opt prev (takeWhile p s)) (dropWhile p s)"
proof (induction s arbitrary: prev)
  case Nil
  show ?case by simp
next
  case (Cons c cs)
  show ?case
  proof (cases "p c")
    case True
    then have "rx (Chr q # r) prev (c # cs) = None"
      using assms by simp
    with True Cons [of "Some c"] show ?thesis
      by (simp split: option.splits)
  next
    case False
    then show ?thesis by simp
  qed
qed

lemma char_eq_code: "(c = d) = ((of_char c :: nat) = of_char d)"
  by simp

lemma lower_code:
  "(of_char (lower_char c) :: nat) =
     (if (65 \<le> (of_char c :: nat) \<and> (of_char c :: nat) \<le> 90) \<or>
         (192 \<le> (of_char c :: nat) \<and> (of_char c :: nat) \<le> 214) \<or>
         (216 \<le> (of_char c :: nat) \<and> (of_char c :: nat) \<le> 222)
      then of_char c + 32 else of_char c)"
  by (auto simp add: lower_char_def Let_def)

lemma lower_is_s: "lower_char c = lower_char CHR ''s'' \<longleftrightarrow> c = CHR ''s'' \<or> c = CHR ''S''"
  unfolding char_eq_code [of "lower_char c"] char_eq_code [of c] lower_code
  by auto

lemma isspace_lower_s: "isspace c \<Longrightarrow> lower_char c \<noteq> lower_char CHR ''s''"
  unfolding lower_is_s by (auto simp add: isspace_def)

lemma upper_s: "lower_char c = lower_char CHR ''s'' \<Longrightarrow> upper_char c = ''S''"
  unfolding lower_is_s by (auto simp add: upper_char_def char_of_eq_iff take_bit_eq_mod)

lemma select_first_char:
  assumes "re_match select_pat s"
  shows "\<exists>c rest. lstrip s = c # rest \<and> lower_char c = lower_char CHR ''s''"
proof -
  let ?q = "\<lambda>x. lower_char x = lower_char CHR ''s''"
  let ?r = "lit_i ''elect'' @ [Wordb]"
  have pat: "select_pat = Bol # Star isspace # Chr ?q # ?r"
    by (simp add: select_pat_def lit_i_def)
  have "rx (Star isspace # Chr ?q # ?r) None s \<noteq> None"
    using assms by (simp add: re_match_def pat)
  then have "rx (Chr ?q # ?r) (last_opt None (takeWhile isspace s)) (dropWhile isspace s) \<noteq> None"
    by (simp add: rx_star_disjoint isspace_lower_s)
  then show ?thesis
    by (cases "dropWhile isspace s") (auto simp add: lstrip_def split: if_splits)
qed

lemma rstrip_Cons_nonspace: "\<not> isspace c \<Longrightarrow> rstrip (c # cs) = c # rstrip cs"
  by (simp add: rstrip_def dropWhile_append)

lemma select_not_sentinel:
  assumes "re_match select_pat s"
  shows "upper (strip s) \<noteq> ''UNSUPPORTED''"
proof -
  from select_first_char [OF assms] obtain c rest
    where l: "lstrip s = c # rest" and c: "lower_char c = lower_char CHR ''s''"
    by blast
  from c have "\<not> isspace c"
    using isspace_lower_s by blast
  then have "strip s = c # rstrip rest"
    by (simp add: strip_def l rstrip_Cons_nonspace)
  then have "upper (strip s) = ''S'' @ upper (rstrip rest)"
    by (simp add: upper_def upper_s [OF c])
  then show ?thesis by simp
qed

lemma select_nonempty: "re_match select_pat s \<Longrightarrow> s \<noteq> []"
  by (auto simp add: re_match_def select_pat_def lit_i_def)

lemma apply_limit_nonempty: "s \<noteq> [] \<Longrightarrow> apply_limit s lim \<noteq> []"
  by (simp add: apply_limit_def split: option.splits)

lemma execute_sql_calls:
  "s \<noteq> [] \<Longrightarrow> calls (snd (execute_sql env s st)) = calls st @ [DbExec s]"
  by (simp add: execute_sql_def record_call_def split: prod.splits sum.splits option.splits)

lemma generate_sql_accepts:
  "generate_sql env q k st = (Inr s, st1) \<Longrightarrow> re_match select_pat s"
  by (auto simp add: generate_sql_def enforce_select_only_def Let_def
      split: prod.splits sum.splits if_splits)

lemma refusal_never_returned:
  "fst (process_question env q rt lim st) \<noteq> refusal_response"
proof (cases "generate_sql env q 5 st")
  case (Pair r st1)
  show ?thesis
  proof (cases r)
    case (Inl exc)
    with Pair show ?thesis
      by (simp add: process_question_def failure_response_def refusal_response_def)
  next
    case (Inr s)
    with Pair have "upper (strip s) \<noteq> ''UNSUPPORTED''"
      using generate_sql_accepts select_not_sentinel by blast
    with Pair Inr show ?thesis
      by (simp add: process_question_def failure_response_def refusal_response_def Let_def
          split: prod.splits sum.splits)
  qed
qed


section \<open>Facts about stripping and splitting\<close>

lemma lstrip_Nil_iff: "lstrip s = [] \<longleftrightarrow> (\<forall>c\<in>set s. isspace c)"
  by (simp add: lstrip_def)

lemma rstrip_Nil_iff: "rstrip s = [] \<longleftrightarrow> (\<forall>c\<in>set s. isspace c)"
  by (simp add: rstrip_def)

lemma set_lstrip: "set (lstrip s) \<subseteq> set s"
  by (auto simp add: lstrip_def dest: set_dropWhileD)

lemma set_rstrip: "set (rstrip s) \<subseteq> set s"
  by (auto simp add: rstrip_def dest: set_dropWhileD)

lemma set_strip: "set (strip s) \<subseteq> set s"
  using set_lstrip [of s] set_rstrip [of "lstrip s"] by (simp add: strip_def)

lemma hd_lstrip: "lstrip s \<noteq> [] \<Longrightarrow> \<not> isspace (hd (lstrip s))"
  by (simp add: lstrip_def hd_dropWhile)

lemma last_rstrip: "rstrip s \<noteq> [] \<Longrightarrow> \<not> isspace (last (rstrip s))"
  by (simp add: rstrip_def last_rev hd_dropWhile)

lemma rstrip_Cons: "rstrip (c # cs) = (if rstrip cs = [] \<and> isspace c then [] else c # rstrip cs)"
  by (auto simp add: rstrip_def dropWhile_append)

lemma rstrip_Nil [simp]: "rstrip [] = []"
  by (simp add: rstrip_def)

lemma hd_rstrip: "rstrip s \<noteq> [] \<Longrightarrow> hd (rstrip s) = hd s"
  by (cases s) (auto simp add: rstrip_Cons split: if_splits)

lemma strip_Nil_iff: "strip s = [] \<longleftrightarrow> (\<forall>c\<in>set s. isspace c)"
proof
  assume "strip s = []"
  then have a: "\<forall>c\<in>set (lstrip s). isspace c"
    by (simp add: strip_def rstrip_Nil_iff)
  show "\<forall>c\<in>set s. isspace c"
  proof (cases "lstrip s = []")
    case True
    then show ?thesis by (simp add: lstrip_Nil_iff)
  next
    case False
    then have "hd (lstrip s) \<in> set (lstrip s)" by simp
    with a hd_lstrip [OF False] show ?thesis by blast
  qed
next
  assume "\<forall>c\<in>set s. isspace c"
  then have "lstrip s = []"
    by (simp add: lstrip_Nil_iff)
  then show "strip s = []"
    by (simp add: strip_def)
qed

lemma strip_ends:
  assumes "strip s \<noteq> []"
  shows "\<not> isspace (hd (strip s)) \<and> \<not> isspace (last (strip s))"
proof -
  from assms have l: "lstrip s \<noteq> []"
    by (auto simp add: strip_def rstrip_def)
  from assms have "hd (strip s) = hd (lstrip s)"
    by (simp add: strip_def hd_rstrip)
  with hd_lstrip [OF l] last_rstrip [of "lstrip s"] assms show ?thesis
    by (simp add: strip_def)
qed

lemma split_no_sep: "d \<notin> set seg \<Longrightarrow> split d seg = [seg]"
  by (induction seg) auto

lemma split_at_sep: "d \<notin> set seg \<Longrightarrow> split d (seg @ d # rest) = seg # split d rest"
  by (induction seg) auto

lemma cut_at_sep:
  "d \<in> set s \<Longrightarrow> \<exists>seg rest. s = seg @ d # rest \<and> d \<notin> set seg"
  by (rule split_list_first)

lemma first_statement_no_sep:
  "CHR '';'' \<notin> set s \<Longrightarrow> first_statement s = (if strip s = [] then [] else strip s @ '';'')"
  by (simp add: first_statement_def split_no_sep)

lemma first_statement_at_sep:
  "CHR '';'' \<notin> set seg \<Longrightarrow>
   first_statement (seg @ CHR '';'' # rest) =
     (if strip seg = [] then first_statement rest else strip seg @ '';'')"
  by (simp add: first_statement_def split_at_sep)


lemma stmt_at_whole: "CHR '';'' \<notin> set s \<Longrightarrow> strip s \<noteq> [] \<Longrightarrow> stmt_at s [] s []"
  by (simp add: stmt_at_def blank_def)

lemma stmt_at_first: "CHR '';'' \<notin> set seg \<Longrightarrow> strip seg \<noteq> [] \<Longrightarrow>
    stmt_at (seg @ CHR '';'' # rest) [] seg (CHR '';'' # rest)"
  by (simp add: stmt_at_def blank_def)

lemma stmt_at_skip:
  assumes "strip seg = []" and "stmt_at rest pre seg' post"
  shows "stmt_at (seg @ CHR '';'' # rest) (seg @ CHR '';'' # pre) seg' post"
proof -
  from assms(1) have "\<forall>c\<in>set seg. isspace c"
    by (simp add: strip_Nil_iff)
  moreover have "blank pre"
    using assms(2) by (simp add: stmt_at_def)
  ultimately have "blank (seg @ CHR '';'' # pre)"
    unfolding blank_def by auto
  moreover have "pre = [] \<or> last pre = CHR '';''"
    using assms(2) by (simp add: stmt_at_def)
  then have "last (seg @ CHR '';'' # pre) = CHR '';''"
    by auto
  ultimately show ?thesis
    using assms(2) by (simp add: stmt_at_def)
qed

lemma blank_skip: "strip seg = [] \<Longrightarrow> blank rest \<Longrightarrow> blank (seg @ CHR '';'' # rest)"
  unfolding blank_def strip_Nil_iff by auto

text \<open>
  The statement chosen by lines 51 to 53: either the text holds nothing but whitespace and
  semicolons and the result is empty, or the result is the trimmed first segment that is
  not blank, with one semicolon appended.
\<close>

lemma shapeI:
  "stmt_at s pre seg post \<and> first_statement s = strip seg @ '';'' \<Longrightarrow>
   (blank s \<and> first_statement s = []) \<or>
   (\<exists>pre seg post. stmt_at s pre seg post \<and> first_statement s = strip seg @ '';'')"
  by (rule disjI2, rule exI [of _ pre], rule exI [of _ seg], rule exI [of _ post])

lemma first_statement_shape:
  "(blank s \<and> first_statement s = []) \<or>
   (\<exists>pre seg post. stmt_at s pre seg post \<and> first_statement s = strip seg @ '';'')"
proof (induction "length s" arbitrary: s rule: less_induct)
  case less
  show ?case
  proof (cases "CHR '';'' \<in> set s")
    case False
    show ?thesis
    proof (cases "strip s = []")
      case True
      with False show ?thesis
        by (simp add: first_statement_no_sep blank_def strip_Nil_iff)
    next
      case nonempty: False
      with False have "stmt_at s [] s [] \<and> first_statement s = strip s @ '';''"
        by (simp add: stmt_at_whole first_statement_no_sep)
      then show ?thesis by (rule shapeI)
    qed
  next
    case True
    from cut_at_sep [OF this] obtain seg rest
      where s: "s = seg @ CHR '';'' # rest" and seg: "CHR '';'' \<notin> set seg"
      by (elim exE conjE)
    show ?thesis
    proof (cases "strip seg = []")
      case nonempty: False
      with seg have "stmt_at s [] seg (CHR '';'' # rest) \<and> first_statement s = strip seg @ '';''"
        unfolding s by (simp add: stmt_at_first first_statement_at_sep)
      then show ?thesis by (rule shapeI)
    next
      case True
      then have fs: "first_statement s = first_statement rest"
        unfolding s using seg by (simp add: first_statement_at_sep)
      have "length rest < length s" by (simp add: s)
      from less [OF this] show ?thesis
      proof
        assume "blank rest \<and> first_statement rest = []"
        then have "blank s \<and> first_statement s = []"
          using True fs by (simp add: s blank_skip)
        then show ?thesis by (rule disjI1)
      next
        assume "\<exists>pre seg post. stmt_at rest pre seg post \<and> first_statement rest = strip seg @ '';''"
        then obtain pre seg' post where r: "stmt_at rest pre seg' post"
          and fr: "first_statement rest = strip seg' @ '';''"
          by (elim exE conjE)
        from stmt_at_skip [OF True r] fr fs
        have "stmt_at s (seg @ CHR '';'' # pre) seg' post \<and> first_statement s = strip seg' @ '';''"
          by (simp add: s)
        then show ?thesis by (rule shapeI)
      qed
    qed
  qed
qed


lemma stmt_at_not_blank:
  assumes "stmt_at s pre seg post"
  shows "\<not> blank s"
proof -
  from assms have ne: "strip seg \<noteq> []" and ns: "CHR '';'' \<notin> set seg" and s: "s = pre @ seg @ post"
    by (simp_all add: stmt_at_def)
  from ne obtain c where c: "c \<in> set seg" and "\<not> isspace c"
    unfolding strip_Nil_iff by auto
  moreover from c ns have "c \<noteq> CHR '';''" by auto
  ultimately show ?thesis
    unfolding blank_def s by auto
qed

lemma statement_form:
  assumes ne: "strip seg \<noteq> []" and ns: "CHR '';'' \<notin> set seg"
  shows "last (strip seg @ '';'') = CHR '';'' \<and>
         length (filter (\<lambda>c. c = CHR '';'') (strip seg @ '';'')) = 1 \<and>
         2 \<le> length (strip seg @ '';'') \<and>
         \<not> isspace (hd (strip seg @ '';''))"
proof -
  from ns set_strip [of seg] have "CHR '';'' \<notin> set (strip seg)"
    by auto
  then have "filter (\<lambda>c. c = CHR '';'') (strip seg) = []"
    by (auto simp add: filter_empty_conv)
  moreover from ne have "1 \<le> length (strip seg)"
    by (cases "strip seg") simp_all
  moreover from ne strip_ends [OF ne] have "\<not> isspace (hd (strip seg @ '';''))"
    by simp
  ultimately show ?thesis by simp
qed



section \<open>Facts about the fence substitutions\<close>

text \<open>
  The opening fence can only match at the start of the text; the closing fence only at its
  end, from the first character of the whitespace that precedes the final backticks.
\<close>

lemma backtick_not_space: "\<not> isspace CHR 0x60"
  by (simp add: isspace_def)

lemma space_not_alnum: "isspace c \<Longrightarrow> \<not> ascii_alnum c"
  by (auto simp add: isspace_def ascii_alnum_def Let_def)

lemma last_opt_Some: "prev \<noteq> None \<Longrightarrow> last_opt prev xs \<noteq> None"
  by (simp add: last_opt_def)

lemma rx_chr:
  "rx (Chr p # r) prev s = (case s of [] \<Rightarrow> None | c # cs \<Rightarrow> if p c then rx r (Some c) cs else None)"
  by (cases s) simp_all

lemma rx_star_total:
  assumes "\<And>prev s. rx r prev s \<noteq> None"
  shows "rx (Star p # r) prev s = rx r (last_opt prev (takeWhile p s)) (dropWhile p s)"
proof (induction s arbitrary: prev)
  case Nil
  show ?case by simp
next
  case (Cons c cs)
  show ?case
  proof (cases "p c")
    case True
    with Cons [of "Some c"] assms [of "last_opt (Some c) (takeWhile p cs)" "dropWhile p cs"]
    show ?thesis by (auto split: option.splits)
  next
    case False
    then show ?thesis by simp
  qed
qed

lemma rx_star_last: "rx [Star p] prev s = Some (last_opt prev (takeWhile p s), dropWhile p s)"
  by (simp add: rx_star_total)

lemma sub_from_bol:
  "prev \<noteq> None \<Longrightarrow> sub_from (Bol # r) repl prev s = s"
proof (induction s arbitrary: prev)
  case Nil
  then have "rx (Bol # r) prev [] = None"
    by auto
  then show ?case
    by (subst sub_from.simps) simp
next
  case (Cons c cs)
  have "sub_from (Bol # r) repl (Some c) cs = cs"
    by (rule Cons.IH) simp
  moreover from Cons.prems have "rx (Bol # r) prev (c # cs) = None"
    by auto
  ultimately show ?case
    by (subst sub_from.simps) simp
qed

lemma drop_tag:
  assumes "\<forall>x\<in>set tag. p x" and "rest = [] \<or> \<not> p (hd rest)"
  shows "dropWhile p (tag @ rest) = rest"
proof -
  from assms(1) have "dropWhile p (tag @ rest) = dropWhile p rest"
    by simp
  also from assms(2) have "dropWhile p rest = rest"
    by (simp add: dropWhile_eq_self_iff)
  finally show ?thesis .
qed

lemma rx_fence_open:
  assumes "\<forall>x\<in>set tag. ascii_alnum x" and "rest = [] \<or> \<not> ascii_alnum (hd rest)"
  shows "\<exists>prev'. prev' \<noteq> None \<and>
           rx fence_open None (''```'' @ tag @ rest) = Some (prev', dropWhile isspace rest)"
proof -
  let ?p1 = "last_opt (Some CHR 0x60) (takeWhile ascii_alnum (tag @ rest))"
  let ?p2 = "last_opt ?p1 (takeWhile isspace (dropWhile ascii_alnum (tag @ rest)))"
  have "rx [Star ascii_alnum, Star isspace] (Some CHR 0x60) (tag @ rest) =
          Some (?p2, dropWhile isspace (dropWhile ascii_alnum (tag @ rest)))"
    by (simp add: rx_star_total rx_star_last)
  then have "rx fence_open None (''```'' @ tag @ rest) = Some (?p2, dropWhile isspace rest)"
    by (simp add: fence_open_def lit_def drop_tag [OF assms])
  moreover have "?p2 \<noteq> None"
    by (simp add: last_opt_Some)
  ultimately show ?thesis by (intro exI conjI)
qed

lemma re_sub_fence_open:
  assumes "\<forall>x\<in>set tag. ascii_alnum x" and "rest = [] \<or> \<not> ascii_alnum (hd rest)"
  shows "re_sub fence_open [] (''```'' @ tag @ rest) = dropWhile isspace rest"
proof -
  from rx_fence_open [OF assms] obtain prev' where p: "prev' \<noteq> None"
    and m: "rx fence_open None (''```'' @ tag @ rest) = Some (prev', dropWhile isspace rest)"
    by (elim exE conjE)
  have l: "length (dropWhile isspace rest) < length (''```'' @ tag @ rest)"
    using length_dropWhile_le [of isspace rest] by simp
  have b: "sub_from fence_open [] prev' (dropWhile isspace rest) = dropWhile isspace rest"
    using p unfolding fence_open_def by (simp add: sub_from_bol)
  show ?thesis
    unfolding re_sub_def
    by (subst sub_from.simps) (simp only: m l b option.case prod.case if_True append_Nil)
qed

lemma rx_fence_tail:
  "rx (lit ''```'' @ [Eol]) prev z \<noteq> None \<Longrightarrow> z = ''```'' \<or> z = ''```'' @ [newline]"
  by (simp add: lit_def rx_chr split: list.splits if_splits)

lemma rx_fence_close_eq:
  "rx fence_close prev y =
     rx (lit ''```'' @ [Eol]) (last_opt prev (takeWhile isspace y)) (dropWhile isspace y)"
proof -
  have "\<And>c. isspace c \<Longrightarrow> \<not> c = CHR 0x60"
    using backtick_not_space by auto
  then show ?thesis
    by (simp add: fence_close_def lit_def rx_star_disjoint)
qed

lemma rx_fence_close_at:
  assumes "\<forall>c\<in>set W. isspace c"
  shows "\<exists>prev'. rx fence_close prev (W @ ''```'') = Some (prev', [])"
proof -
  have "dropWhile isspace (W @ ''```'') = ''```''"
    using assms by (simp add: backtick_not_space)
  then show ?thesis
    by (simp add: rx_fence_close_eq lit_def)
qed

lemma rx_fence_close_None:
  assumes "\<not> isspace (last (c # cs))" and "\<forall>x\<in>set W. isspace x"
  shows "rx fence_close prev (c # cs @ W @ ''```'') = None"
proof (rule ccontr)
  let ?y = "c # cs @ W @ ''```''"
  assume "rx fence_close prev ?y \<noteq> None"
  then have z: "dropWhile isspace ?y = ''```'' \<or> dropWhile isspace ?y = ''```'' @ [newline]"
    unfolding rx_fence_close_eq by (rule rx_fence_tail)
  have y: "takeWhile isspace ?y @ dropWhile isspace ?y = ?y"
    by (rule takeWhile_dropWhile_id)
  from z show False
  proof
    assume d: "dropWhile isspace ?y = ''```''"
    with y have "takeWhile isspace ?y @ ''```'' = (c # cs @ W) @ ''```''"
      by simp
    then have e: "takeWhile isspace ?y = c # cs @ W"
      by (simp only: append_same_eq)
    have "\<forall>x\<in>set (takeWhile isspace ?y). isspace x"
      by (auto dest: set_takeWhileD)
    then have "\<forall>x\<in>set (c # cs @ W). isspace x"
      unfolding e .
    moreover have "last (c # cs) \<in> set (c # cs @ W)"
      using last_in_set [of "c # cs"] by simp
    ultimately have "isspace (last (c # cs))"
      by (rule bspec)
    with assms(1) show False by simp
  next
    assume d: "dropWhile isspace ?y = ''```'' @ [newline]"
    with y have "last ?y = newline"
      by (metis last_appendR last_snoc not_Cons_self2 append_is_Nil_conv)
    moreover have "last ?y = CHR 0x60"
      by simp
    ultimately show False
      by (simp add: newline_def)
  qed
qed

lemma sub_from_fence_close:
  assumes "u = [] \<or> \<not> isspace (last u)" and "\<forall>x\<in>set W. isspace x"
  shows "sub_from fence_close [] prev (u @ W @ ''```'') = u"
  using assms(1)
proof (induction u arbitrary: prev)
  case Nil
  from rx_fence_close_at [OF assms(2), of prev] obtain prev'
    where m: "rx fence_close prev (W @ ''```'') = Some (prev', [])"
    by (elim exE)
  have e: "rx fence_close prev' [] = None"
    by (simp add: rx_fence_close_eq lit_def)
  have n: "sub_from fence_close [] prev' [] = []"
    by (subst sub_from.simps) (simp add: e)
  show ?case
    by (subst sub_from.simps) (simp add: m n)
next
  case (Cons c cs)
  then have l: "\<not> isspace (last (c # cs))"
    by simp
  then have "cs = [] \<or> \<not> isspace (last cs)"
    by (cases cs) simp_all
  then have ih: "sub_from fence_close [] (Some c) (cs @ W @ ''```'') = cs"
    by (rule Cons.IH)
  have m: "rx fence_close prev (c # cs @ W @ ''```'') = None"
    using l assms(2) by (rule rx_fence_close_None)
  show ?case
    using m ih by (subst sub_from.simps) simp
qed

lemma rstrip_decomp: "\<exists>W. s = rstrip s @ W \<and> (\<forall>x\<in>set W. isspace x)"
proof (intro exI conjI)
  have "rev (takeWhile isspace (rev s) @ dropWhile isspace (rev s)) = s"
    by (simp only: takeWhile_dropWhile_id rev_rev_ident)
  then show "s = rstrip s @ rev (takeWhile isspace (rev s))"
    by (simp only: rev_append rstrip_def)
  show "\<forall>x\<in>set (rev (takeWhile isspace (rev s))). isspace x"
    by (auto dest: set_takeWhileD)
qed

lemma lstrip_append_nonspace:
  assumes "ys \<noteq> []" and "\<not> isspace (hd ys)"
  shows "dropWhile isspace (xs @ ys) = lstrip xs @ ys"
proof -
  from assms have "dropWhile isspace ys = ys"
    by (simp add: dropWhile_eq_self_iff)
  then show ?thesis
    by (simp add: dropWhile_append lstrip_def)
qed

lemma strip_padded:
  assumes "\<forall>x\<in>set p1. isspace x" and "\<forall>x\<in>set p2. isspace x"
      and "t \<noteq> []" and "\<not> isspace (hd t)" and "\<not> isspace (last t)"
  shows "strip (p1 @ t @ p2) = t"
proof -
  from assms(3,4) have "dropWhile isspace (t @ p2) = t @ p2"
    by (simp add: dropWhile_eq_self_iff)
  with assms(1) have l: "lstrip (p1 @ t @ p2) = t @ p2"
    by (simp add: lstrip_def)
  from assms(3,5) have "dropWhile isspace (rev t) = rev t"
    by (simp add: dropWhile_eq_self_iff hd_rev)
  moreover have "dropWhile isspace (rev p2 @ rev t) = dropWhile isspace (rev t)"
    using assms(2) by (intro dropWhile_append2) simp
  ultimately have "rstrip (t @ p2) = t"
    by (simp add: rstrip_def)
  with l show ?thesis
    by (simp add: strip_def)
qed

lemma strip_fences_fenced:
  assumes tag: "\<forall>x\<in>set tag. ascii_alnum x" and c: "isspace c"
  shows "strip_fences (''```'' @ tag @ c # inner @ ''```'') = strip inner"
proof -
  have "re_sub fence_open [] (''```'' @ tag @ (c # inner @ ''```'')) =
          dropWhile isspace (c # inner @ ''```'')"
    using tag c by (intro re_sub_fence_open) (simp_all add: space_not_alnum)
  also have "\<dots> = dropWhile isspace (inner @ ''```'')"
    using c by simp
  also have "\<dots> = lstrip inner @ ''```''"
    by (rule lstrip_append_nonspace) (simp_all add: backtick_not_space)
  finally have o: "re_sub fence_open [] (''```'' @ tag @ c # inner @ ''```'') = lstrip inner @ ''```''" .
  from rstrip_decomp [of "lstrip inner"] obtain W
    where w: "lstrip inner = strip inner @ W" and sp: "\<forall>x\<in>set W. isspace x"
    unfolding strip_def by (elim exE conjE)
  have e: "strip inner = [] \<or> \<not> isspace (last (strip inner))"
    using last_rstrip [of "lstrip inner"] by (auto simp add: strip_def)
  have "re_sub fence_close [] (lstrip inner @ ''```'') =
          sub_from fence_close [] None (strip inner @ W @ ''```'')"
    unfolding re_sub_def by (subst w) simp
  also have "\<dots> = strip inner"
    using e sp by (rule sub_from_fence_close)
  finally show ?thesis
    by (simp only: strip_fences_def o)
qed



section \<open>Facts about the search for a LIMIT clause\<close>

lemma rx_plus:
  "rx (Plus p # r) prev s =
     (case s of [] \<Rightarrow> None | c # cs \<Rightarrow> if p c then rx (Star p # r) (Some c) cs else None)"
  by (cases s) simp_all

lemma rx_star_disjoint_plus:
  assumes "\<And>c. p c \<Longrightarrow> \<not> q c"
  shows "rx (Star p # Plus q # r) prev s =
         rx (Plus q # r) (last_opt prev (takeWhile p s)) (dropWhile p s)"
proof (induction s arbitrary: prev)
  case Nil
  show ?case by simp
next
  case (Cons c cs)
  show ?case
  proof (cases "p c")
    case True
    then have "rx (Plus q # r) prev (c # cs) = None"
      using assms by simp
    with True Cons [of "Some c"] show ?thesis
      by (simp split: option.splits)
  next
    case False
    then show ?thesis by simp
  qed
qed

lemma digit_word: "isdigit c \<Longrightarrow> isword c"
  by (simp add: isdigit_def isword_def Let_def)

lemma space_not_digit: "isspace c \<Longrightarrow> \<not> isdigit c"
  by (auto simp add: isdigit_def isspace_def Let_def)

lemma lower_ascii_word:
  assumes "lower_char c = x" and "97 \<le> (of_char x :: nat)" and "(of_char x :: nat) \<le> 122"
  shows "isword c"
proof -
  from assms have "97 \<le> (of_char (lower_char c) :: nat) \<and> (of_char (lower_char c) :: nat) \<le> 122"
    by simp
  then show ?thesis
    unfolding lower_code isword_def Let_def by (auto split: if_splits)
qed

lemma lower_l_word: "lower_char c = lower_char CHR ''l'' \<Longrightarrow> isword c"
  by (rule lower_ascii_word [where x = "CHR ''l''"]) (simp_all add: lower_char_def)

text \<open>Digits up to a word boundary: the run of digits must end at a non-word character.\<close>

lemma rx_digits_boundary:
  assumes "isdigit d"
  shows "rx [Star isdigit, Wordb] (Some d) s \<noteq> None \<longleftrightarrow>
         (dropWhile isdigit s = [] \<or> \<not> isword (hd (dropWhile isdigit s)))"
  using assms
proof (induction s arbitrary: d)
  case Nil
  then show ?case
    by (simp add: at_word_boundary_def digit_word)
next
  case (Cons c cs)
  show ?case
  proof (cases "isdigit c")
    case True
    have b: "\<not> at_word_boundary (Some d) (c # cs)"
      using True Cons.prems by (simp add: at_word_boundary_def digit_word)
    from Cons.IH [OF True] True b show ?thesis
      by (cases "rx [Star isdigit, Wordb] (Some c) cs") auto
  next
    case False
    with Cons.prems show ?thesis
      by (simp add: at_word_boundary_def digit_word)
  qed
qed

lemma search_from_iff:
  "search_from pat prev s \<longleftrightarrow> (\<exists>pre rest. s = pre @ rest \<and> rx pat (last_opt prev pre) rest \<noteq> None)"
proof (induction s arbitrary: prev)
  case Nil
  show ?case by simp
next
  case (Cons c cs)
  show ?case
  proof
    assume "search_from pat prev (c # cs)"
    then have "rx pat prev (c # cs) \<noteq> None \<or> search_from pat (Some c) cs"
      by simp
    then show "\<exists>pre rest. c # cs = pre @ rest \<and> rx pat (last_opt prev pre) rest \<noteq> None"
    proof
      assume "rx pat prev (c # cs) \<noteq> None"
      then have "c # cs = [] @ (c # cs) \<and> rx pat (last_opt prev []) (c # cs) \<noteq> None"
        by simp
      then show ?thesis by (intro exI)
    next
      assume "search_from pat (Some c) cs"
      then obtain pre rest where "cs = pre @ rest" and "rx pat (last_opt (Some c) pre) rest \<noteq> None"
        unfolding Cons.IH by (elim exE conjE)
      then have "c # cs = (c # pre) @ rest \<and> rx pat (last_opt prev (c # pre)) rest \<noteq> None"
        by simp
      then show ?thesis by (intro exI)
    qed
  next
    assume "\<exists>pre rest. c # cs = pre @ rest \<and> rx pat (last_opt prev pre) rest \<noteq> None"
    then obtain pre rest where e: "c # cs = pre @ rest" and m: "rx pat (last_opt prev pre) rest \<noteq> None"
      by (elim exE conjE)
    show "search_from pat prev (c # cs)"
    proof (cases pre)
      case Nil
      with e m have "rx pat prev (c # cs) \<noteq> None"
        by auto
      then show ?thesis by simp
    next
      case (Cons a pre')
      with e m have "cs = pre' @ rest \<and> rx pat (last_opt (Some c) pre') rest \<noteq> None"
        by simp
      then have "\<exists>pre rest. cs = pre @ rest \<and> rx pat (last_opt (Some c) pre) rest \<noteq> None"
        by (intro exI)
      then have "search_from pat (Some c) cs"
        unfolding Cons.IH [of "Some c"] .
      then show ?thesis by simp
    qed
  qed
qed

lemma lit_i_Cons: "lit_i (a # w) = Chr (\<lambda>x. lower_char x = lower_char a) # lit_i w"
  by (simp add: lit_i_def)

lemma rx_lit_i:
  "rx (lit_i w @ r) prev s \<noteq> None \<longleftrightarrow>
     (\<exists>x rest. s = x @ rest \<and> map lower_char x = map lower_char w \<and>
                rx r (last_opt prev x) rest \<noteq> None)"
proof (induction w arbitrary: prev s)
  case Nil
  show ?case by (simp add: lit_i_def)
next
  case (Cons a w)
  have step: "rx (lit_i (a # w) @ r) prev s =
      (case s of [] \<Rightarrow> None
       | c # cs \<Rightarrow> if lower_char c = lower_char a then rx (lit_i w @ r) (Some c) cs else None)"
    by (simp add: lit_i_Cons rx_chr)
  show ?case
  proof
    assume m: "rx (lit_i (a # w) @ r) prev s \<noteq> None"
    then obtain c cs where s: "s = c # cs" and c: "lower_char c = lower_char a"
      and m': "rx (lit_i w @ r) (Some c) cs \<noteq> None"
      unfolding step by (cases s) (auto split: if_splits)
    from m' obtain x rest where "cs = x @ rest" and "map lower_char x = map lower_char w"
      and "rx r (last_opt (Some c) x) rest \<noteq> None"
      unfolding Cons.IH by (elim exE conjE)
    with s c have "s = (c # x) @ rest \<and> map lower_char (c # x) = map lower_char (a # w) \<and>
        rx r (last_opt prev (c # x)) rest \<noteq> None"
      by simp
    then show "\<exists>x rest. s = x @ rest \<and> map lower_char x = map lower_char (a # w) \<and>
        rx r (last_opt prev x) rest \<noteq> None"
      by (intro exI)
  next
    assume "\<exists>x rest. s = x @ rest \<and> map lower_char x = map lower_char (a # w) \<and>
        rx r (last_opt prev x) rest \<noteq> None"
    then obtain x rest where s: "s = x @ rest" and l: "map lower_char x = map lower_char (a # w)"
      and m: "rx r (last_opt prev x) rest \<noteq> None"
      by (elim exE conjE)
    from l obtain c x' where x: "x = c # x'" and c: "lower_char c = lower_char a"
      and l': "map lower_char x' = map lower_char w"
      by (cases x) auto
    from m x have "rx r (last_opt (Some c) x') rest \<noteq> None"
      by simp
    with l' have "\<exists>y rest'. x' @ rest = y @ rest' \<and> map lower_char y = map lower_char w \<and>
        rx r (last_opt (Some c) y) rest' \<noteq> None"
      by (intro exI [of _ x'] exI [of _ rest]) simp
    then have "rx (lit_i w @ r) (Some c) (x' @ rest) \<noteq> None"
      unfolding Cons.IH .
    with c show "rx (lit_i (a # w) @ r) prev s \<noteq> None"
      unfolding step by (simp add: s x)
  qed
qed

lemma rx_limit_tail:
  "rx [Star isspace, Plus isdigit, Wordb] prev t \<noteq> None \<longleftrightarrow> digits_end t"
proof -
  have "rx [Star isspace, Plus isdigit, Wordb] prev t =
        rx [Plus isdigit, Wordb] (last_opt prev (takeWhile isspace t)) (dropWhile isspace t)"
    by (rule rx_star_disjoint_plus) (rule space_not_digit)
  then show ?thesis
    unfolding digits_end_def
    by (cases "dropWhile isspace t")
      (simp_all add: rx_plus rx_digits_boundary del: dropWhile_eq_Nil_conv not_None_eq)
qed

lemma rx_limit_rest:
  "rx [Plus isspace, Plus isdigit, Wordb] prev rest \<noteq> None \<longleftrightarrow>
     (\<exists>c t. rest = c # t \<and> isspace c \<and> digits_end t)"
  by (cases rest) (simp_all add: rx_limit_tail rx_plus del: not_None_eq)

lemma digits_endI:
  assumes ws: "\<forall>c\<in>set ws. isspace c" and ds: "ds \<noteq> []" "\<forall>c\<in>set ds. isdigit c"
      and post: "post = [] \<or> \<not> isword (hd post)"
  shows "digits_end (ws @ ds @ post)"
proof -
  from ds obtain d ds' where d: "ds = d # ds'" "isdigit d" "\<forall>c\<in>set ds'. isdigit c"
    by (cases ds) auto
  from d(2) have "\<not> isspace d"
    using space_not_digit by auto
  with ws have 1: "dropWhile isspace (ws @ ds @ post) = d # (ds' @ post)"
    by (simp add: d(1))
  from post have "dropWhile isdigit post = post"
    using digit_word by (auto simp add: dropWhile_eq_self_iff)
  with d(3) have 2: "dropWhile isdigit (ds' @ post) = post"
    by simp
  show ?thesis
    unfolding digits_end_def
    by (rule exI [of _ d], rule exI [of _ "ds' @ post"]) (simp only: 1 2 d(2) post simp_thms)
qed

lemma digits_endD:
  assumes "digits_end t"
  shows "\<exists>ws ds post. t = ws @ ds @ post \<and> (\<forall>c\<in>set ws. isspace c) \<and> ds \<noteq> [] \<and>
           (\<forall>c\<in>set ds. isdigit c) \<and> (post = [] \<or> \<not> isword (hd post))"
proof -
  from assms obtain d v where dv: "dropWhile isspace t = d # v" and d: "isdigit d"
    and e: "dropWhile isdigit v = [] \<or> \<not> isword (hd (dropWhile isdigit v))"
    unfolding digits_end_def by (elim exE conjE)
  let ?ws = "takeWhile isspace t" and ?ds = "d # takeWhile isdigit v" and ?post = "dropWhile isdigit v"
  have "t = ?ws @ dropWhile isspace t"
    by simp
  also have "dropWhile isspace t = ?ds @ ?post"
    by (simp add: dv)
  finally have "t = ?ws @ ?ds @ ?post" .
  moreover have "\<forall>c\<in>set ?ws. isspace c"
    by (auto dest: set_takeWhileD)
  moreover have "\<forall>c\<in>set ?ds. isdigit c"
    using d by (auto dest: set_takeWhileD)
  moreover have "?ds \<noteq> []"
    by simp
  ultimately show ?thesis
    using e by (intro exI conjI)
qed

lemma limit_lower: "map lower_char ''limit'' = ''limit''"
  by (simp add: lower_char_def)

lemma rx_limit_iff:
  "rx limit_pat prev s \<noteq> None \<longleftrightarrow>
     \<not> (case prev of None \<Rightarrow> False | Some c \<Rightarrow> isword c) \<and> clause_from s"
proof -
  let ?r = "[Plus isspace, Plus isdigit, Wordb]"
  have pat: "limit_pat = Wordb # lit_i ''limit'' @ ?r"
    by (simp add: limit_pat_def)
  have starts: "isword (hd w)" if "map lower_char w = ''limit''" for w
  proof -
    from that obtain c w' where "w = c # w'" and "lower_char c = CHR ''l''"
      by (cases w) auto
    then show ?thesis
      using lower_l_word [of c] by (simp add: lower_char_def)
  qed
  have boundary: "at_word_boundary prev (w @ u) \<longleftrightarrow> \<not> (case prev of None \<Rightarrow> False | Some c \<Rightarrow> isword c)"
    if "map lower_char w = ''limit''" for w u
  proof -
    from that obtain c w' where w: "w = c # w'"
      by (cases w) auto
    with starts [OF that] show ?thesis
      by (simp add: at_word_boundary_def)
  qed
  show ?thesis
  proof
    assume m: "rx limit_pat prev s \<noteq> None"
    then have b: "at_word_boundary prev s" and m': "rx (lit_i ''limit'' @ ?r) prev s \<noteq> None"
      unfolding pat by (simp_all split: if_splits del: not_None_eq)
    from m' obtain w rest where s: "s = w @ rest" and w: "map lower_char w = ''limit''"
      and r: "rx ?r (last_opt prev w) rest \<noteq> None"
      unfolding rx_lit_i limit_lower by (elim exE conjE)
    from r obtain c t where rest: "rest = c # t" and c: "isspace c" and t: "digits_end t"
      unfolding rx_limit_rest by (elim exE conjE)
    from digits_endD [OF t] obtain ws ds post where t': "t = ws @ ds @ post"
      and ws: "\<forall>c\<in>set ws. isspace c" and ds: "ds \<noteq> []" "\<forall>c\<in>set ds. isdigit c"
      and post: "post = [] \<or> \<not> isword (hd post)"
      by (elim exE conjE)
    have "s = w @ (c # ws) @ ds @ post"
      by (simp add: s rest t')
    moreover have "c # ws \<noteq> []" "\<forall>x\<in>set (c # ws). isspace x"
      using c ws by simp_all
    ultimately have "clause_from s"
      unfolding clause_from_def using w ds post by (intro exI conjI)
    moreover from b have "\<not> (case prev of None \<Rightarrow> False | Some c \<Rightarrow> isword c)"
      unfolding s boundary [OF w] .
    ultimately show "\<not> (case prev of None \<Rightarrow> False | Some c \<Rightarrow> isword c) \<and> clause_from s"
      by simp
  next
    assume a: "\<not> (case prev of None \<Rightarrow> False | Some c \<Rightarrow> isword c) \<and> clause_from s"
    then obtain w ws ds post where s: "s = w @ ws @ ds @ post" and w: "map lower_char w = ''limit''"
      and ws: "ws \<noteq> []" "\<forall>c\<in>set ws. isspace c" and ds: "ds \<noteq> []" "\<forall>c\<in>set ds. isdigit c"
      and post: "post = [] \<or> \<not> isword (hd post)"
      unfolding clause_from_def by (elim exE conjE)
    from ws obtain c ws' where c: "ws = c # ws'" "isspace c" "\<forall>x\<in>set ws'. isspace x"
      by (cases ws) auto
    have "digits_end (ws' @ ds @ post)"
      using c(3) ds post by (rule digits_endI)
    with c have "\<exists>c' t. ws @ ds @ post = c' # t \<and> isspace c' \<and> digits_end t"
      by (intro exI [of _ c] exI [of _ "ws' @ ds @ post"]) simp
    then have "rx ?r (last_opt prev w) (ws @ ds @ post) \<noteq> None"
      unfolding rx_limit_rest .
    with w have "\<exists>x rest. s = x @ rest \<and> map lower_char x = ''limit'' \<and>
        rx ?r (last_opt prev x) rest \<noteq> None"
      unfolding s by (intro exI conjI) (rule refl)
    then have "rx (lit_i ''limit'' @ ?r) prev s \<noteq> None"
      unfolding rx_lit_i limit_lower .
    moreover from a have "at_word_boundary prev s"
      unfolding s boundary [OF w] by (rule conjunct1)
    ultimately show "rx limit_pat prev s \<noteq> None"
      unfolding pat by (simp del: not_None_eq)
  qed
qed

lemma re_search_limit_iff: "re_search limit_pat s \<longleftrightarrow> has_limit_clause s"
proof -
  have "(case last_opt None pre of None \<Rightarrow> False | Some c \<Rightarrow> isword c) \<longleftrightarrow> \<not> (pre = [] \<or> \<not> isword (last pre))"
    for pre
    by (simp add: last_opt_def)
  then show ?thesis
    unfolding re_search_def search_from_iff rx_limit_iff has_limit_clause_def by simp
qed

lemma rdrop_append:
  assumes "\<forall>c\<in>set t. P c" and "x = [] \<or> \<not> P (last x)"
  shows "rev (dropWhile P (rev (x @ t))) = x"
proof -
  from assms(1) have "dropWhile P (rev t @ rev x) = dropWhile P (rev x)"
    by (intro dropWhile_append2) simp
  moreover from assms(2) have "dropWhile P (rev x) = rev x"
    by (auto simp add: dropWhile_eq_self_iff hd_rev)
  ultimately show ?thesis by simp
qed

lemma rdrop_decomp:
  "\<exists>t. x = rev (dropWhile P (rev x)) @ t \<and> (\<forall>c\<in>set t. P c)"
proof (intro exI conjI)
  have "rev (takeWhile P (rev x) @ dropWhile P (rev x)) = x"
    by (simp only: takeWhile_dropWhile_id rev_rev_ident)
  then show "x = rev (dropWhile P (rev x)) @ rev (takeWhile P (rev x))"
    by (simp only: rev_append)
  show "\<forall>c\<in>set (rev (takeWhile P (rev x))). P c"
    by (auto dest: set_takeWhileD)
qed

lemma rdrop_last:
  "rev (dropWhile P (rev x)) = [] \<or> \<not> P (last (rev (dropWhile P (rev x))))"
proof (cases "dropWhile P (rev x) = []")
  case True
  then show ?thesis by (simp only: rev.simps simp_thms)
next
  case False
  then have "\<not> P (hd (dropWhile P (rev x)))"
    by (rule hd_dropWhile)
  with False show ?thesis
    by (simp only: last_rev simp_thms)
qed

lemma tail_split_result:
  assumes "tail_split s base semis ws"
  shows "rstrip_char CHR '';'' (rstrip s) = base"
proof -
  from assms have s: "s = (base @ semis) @ ws" and ws: "\<forall>c\<in>set ws. isspace c"
    and semis: "\<forall>c\<in>set semis. c = CHR '';''" and b: "base = [] \<or> \<not> last base = CHR '';''"
    and l: "base @ semis = [] \<or> \<not> isspace (last (base @ semis))"
    by (simp_all add: tail_split_def)
  have "rstrip s = base @ semis"
    unfolding rstrip_def s using ws l by (rule rdrop_append)
  moreover have "rstrip_char CHR '';'' (base @ semis) = base"
    unfolding rstrip_char_def using semis b by (rule rdrop_append)
  ultimately show ?thesis by simp
qed

lemma tail_split_exists: "\<exists>base semis ws. tail_split s base semis ws"
proof -
  from rdrop_decomp [of s isspace] obtain ws where 1: "s = rstrip s @ ws" and ws: "\<forall>c\<in>set ws. isspace c"
    unfolding rstrip_def by (elim exE conjE)
  from rdrop_decomp [of "rstrip s" "\<lambda>c. c = CHR '';''"] obtain semis
    where 2: "rstrip s = rstrip_char CHR '';'' (rstrip s) @ semis" and semis: "\<forall>c\<in>set semis. c = CHR '';''"
    unfolding rstrip_char_def by (elim exE conjE)
  let ?base = "rstrip_char CHR '';'' (rstrip s)"
  have b: "?base = [] \<or> last ?base \<noteq> CHR '';''"
    unfolding rstrip_char_def by (rule rdrop_last)
  have "rstrip s = [] \<or> \<not> isspace (last (rstrip s))"
    unfolding rstrip_def by (rule rdrop_last)
  then have l: "?base @ semis = [] \<or> \<not> isspace (last (?base @ semis))"
    by (subst (1 2) 2 [symmetric])
  from 2 have "rstrip s @ ws = (?base @ semis) @ ws"
    by (rule arg_cong)
  with 1 have "s = (?base @ semis) @ ws"
    by (rule trans)
  then have "s = ?base @ semis @ ws"
    by (simp only: append_assoc)
  then have "tail_split s ?base semis ws"
    unfolding tail_split_def using ws semis b l by (intro conjI)
  then show ?thesis by (intro exI)
qed

lemma digit_char_isdigit: "d < 10 \<Longrightarrow> isdigit (digit_char d)"
  by (simp add: digit_char_def isdigit_def)

lemma str_nat_digits: "str_nat n \<noteq> [] \<and> (\<forall>c\<in>set (str_nat n). isdigit c)"
proof (induction n rule: str_nat.induct)
  case (1 n)
  show ?case
  proof (cases "n < 10")
    case True
    then show ?thesis
      by (subst (1 2) str_nat.simps) (simp add: digit_char_isdigit)
  next
    case False
    with 1 have "\<forall>c\<in>set (str_nat (n div 10)). isdigit c"
      by simp
    moreover have "isdigit (digit_char (n mod 10))"
      by (rule digit_char_isdigit) simp
    ultimately show ?thesis
      using False by (subst (1 2) str_nat.simps) simp
  qed
qed

lemma appended_limit_found:
  assumes "0 < k"
  shows "has_limit_clause (base @ '' LIMIT '' @ str_int k @ '';'')"
proof -
  let ?ds = "str_nat (nat k)"
  have k: "str_int k = ?ds"
    using assms by (simp add: str_int_def)
  have w: "map lower_char ''LIMIT'' = ''limit''"
    by code_simp
  have sp: "'' '' \<noteq> []" "\<forall>c\<in>set '' ''. isspace c"
    by (simp_all add: isspace_def)
  have post: "'';'' = [] \<or> \<not> isword (hd '';'')"
    by (simp add: isword_def)
  from str_nat_digits [of "nat k"] have ds: "?ds \<noteq> []" "\<forall>c\<in>set ?ds. isdigit c"
    by simp_all
  have "''LIMIT'' @ '' '' @ ?ds @ '';'' = ''LIMIT'' @ '' '' @ ?ds @ '';''"
    by (rule refl)
  then have c: "clause_from (''LIMIT'' @ '' '' @ ?ds @ '';'')"
    unfolding clause_from_def using w sp ds post by (intro exI conjI)
  have "base @ '' LIMIT '' @ str_int k @ '';'' = (base @ '' '') @ (''LIMIT'' @ '' '' @ ?ds @ '';'')"
    by (simp add: k)
  moreover have "base @ '' '' = [] \<or> \<not> isword (last (base @ '' ''))"
    by (simp add: isword_def)
  ultimately show ?thesis
    unfolding has_limit_clause_def using c by (intro exI conjI)
qed

lemma apply_limit_idempotent_nonneg:
  assumes "lim = None \<or> (\<exists>k. lim = Some k \<and> 0 \<le> k)"
  shows "apply_limit (apply_limit s lim) lim = apply_limit s lim"
proof (cases lim)
  case None
  then show ?thesis by (simp add: apply_limit_def)
next
  case (Some k)
  with assms have k: "0 \<le> k" by simp
  show ?thesis
  proof (cases "k = 0 \<or> re_search limit_pat s")
    case True
    then show ?thesis by (auto simp add: Some apply_limit_def)
  next
    case False
    let ?r = "rstrip_char CHR '';'' (rstrip s) @ '' LIMIT '' @ str_int k @ '';''"
    from False have e: "apply_limit s lim = ?r"
      by (simp add: Some apply_limit_def)
    from False k have "0 < k" by simp
    then have "re_search limit_pat ?r"
      unfolding re_search_limit_iff by (rule appended_limit_found)
    then have "apply_limit ?r lim = ?r"
      by (simp add: Some apply_limit_def)
    with e show ?thesis by simp
  qed
qed


section \<open>The safety gate\<close>

text \<open>
  C10. The safety gate never modifies an accepted statement: whenever
  \<^verbatim>\<open>_enforce_select_only\<close> does not raise, the value it returns is its argument,
  character for character.
\<close>

theorem enforce_select_only_unchanged:
  "enforce_select_only s = Inr s' \<Longrightarrow> s' = s"
  by (simp add: enforce_select_only_def split: if_splits)

theorem enforce_select_only_unchanged_witness:
  "enforce_select_only ''  SeLeCt 1;'' = Inr ''  SeLeCt 1;'' \<and> ''  SeLeCt 1;'' = ''  SeLeCt 1;''"
proof -
  have h: "enforce_select_only ''  SeLeCt 1;'' = Inr ''  SeLeCt 1;''"
    by code_simp
  from enforce_select_only_unchanged [OF h] h show ?thesis by simp
qed

lemma generate_sql_rejects:
  assumes "render_prompt env q k (world st) = (Inr prompt, w1)"
      and "llm_predict env prompt w1 = (Inr raw, w2)"
      and "\<not> re_match select_pat (clean_sql raw)"
  shows "generate_sql env q k st =
           (Inl (ValueError ''Only SELECT statements are allowed.''), record_call (LlmCall prompt) w2 st)"
  using assms by (simp add: generate_sql_def enforce_select_only_def)

text \<open>
  C2. A sanitized statement that does not match \<^verbatim>\<open>^\s*select\b\<close> (case-insensitive) makes
  the safety gate raise \<^verbatim>\<open>ValueError("Only SELECT statements are allowed.")\<close>. When the
  prompt was rendered and the model answered with a completion that sanitizes to such a
  statement, the response of \<^verbatim>\<open>process_question\<close> has no SQL, the answer
  "An error occurred while processing your question." and that message as its error; the
  only call recorded for the request is the one to the model, so the statement never
  reaches the store.
\<close>

theorem non_select_rejected:
  assumes "\<not> re_match select_pat stmt"
  shows "enforce_select_only stmt = Inl (ValueError ''Only SELECT statements are allowed.'') \<and>
         (render_prompt env q 5 (world st) = (Inr prompt, w1) \<and>
          llm_predict env prompt w1 = (Inr raw, w2) \<and> clean_sql raw = stmt \<longrightarrow>
          process_question env q rt lim st =
            (\<lparr>sql = None, answer = ''An error occurred while processing your question.'',
              error = Some ''Only SELECT statements are allowed.'', columns = None, rows = None\<rparr>,
             \<lparr>calls = calls st @ [LlmCall prompt], world = w2\<rparr>))"
  using assms
  by (auto simp add: enforce_select_only_def process_question_def generate_sql_rejects
      failure_response_def record_call_def)

theorem non_select_rejected_witness:
  "\<not> re_match select_pat ''DROP TABLE periods;'' \<and>
   enforce_select_only ''DROP TABLE periods;'' = Inl (ValueError ''Only SELECT statements are allowed.'') \<and>
   process_question (scripted_env (Inr (Some ([''1''], [[1]])))) ''How many periods?'' True None
       (start [Inr ''DROP TABLE periods;'']) =
     (\<lparr>sql = None, answer = ''An error occurred while processing your question.'',
       error = Some ''Only SELECT statements are allowed.'', columns = None, rows = None\<rparr>,
      \<lparr>calls = [LlmCall ''How many periods?''], world = []\<rparr>)"
proof -
  have h: "\<not> re_match select_pat ''DROP TABLE periods;''"
    by code_simp
  have c: "clean_sql ''DROP TABLE periods;'' = ''DROP TABLE periods;''"
    by code_simp
  show ?thesis
    using h c non_select_rejected [OF h, of "scripted_env (Inr (Some ([''1''], [[1]])))"
        "''How many periods?''" "start [Inr ''DROP TABLE periods;'']" "''How many periods?''"
        "[Inr ''DROP TABLE periods;'']" "''DROP TABLE periods;''" "[]" True None]
    by (simp add: scripted_env_def start_def)
qed

section \<open>The refusal branch of the orchestrator\<close>

text \<open>
  A statement returned by \<^verbatim>\<open>_generate_sql\<close> has passed the gate, so its first character
  after leading whitespace is an \<open>s\<close> or \<open>S\<close>, and the test of line 176 is false: no run of
  \<^verbatim>\<open>process_question\<close> returns the refusal response.
\<close>

lemma unsupported_completion_rejected:
  assumes "render_prompt env q 5 (world st) = (Inr prompt, w1)"
      and "llm_predict env prompt w1 = (Inr raw, w2)"
      and "contains ''UNSUPPORTED'' (upper (strip raw))"
  shows "process_question env q rt lim st =
           (failure_response (ValueError ''Only SELECT statements are allowed.''),
            record_call (LlmCall prompt) w2 st)"
proof -
  have "clean_sql raw = ''UNSUPPORTED''"
    using assms(3) by (simp add: clean_sql_def)
  moreover have "\<not> re_match select_pat ''UNSUPPORTED''"
    by code_simp
  ultimately show ?thesis
    using assms(1,2) by (simp add: process_question_def generate_sql_rejects)
qed

text \<open>
  C1. The claim is that a completion containing "UNSUPPORTED" leads to the refusal
  response (no SQL, the answer "Sorry, I cannot answer that question based on the
  available data.", no error, empty columns and rows). On the completion
  "UNSUPPORTED: cannot answer" the sanitizer returns the sentinel, the safety gate inside
  \<^verbatim>\<open>_generate_sql\<close> rejects the sentinel, and the response is the failure response with the
  error "Only SELECT statements are allowed.".
\<close>

theorem unsupported_scenario_rejected:
  "clean_sql ''UNSUPPORTED: cannot answer'' = ''UNSUPPORTED'' \<and>
   process_question (scripted_env (Inr (Some ([''1''], [[1]])))) ''What is the weather?'' True None
       (start [Inr ''UNSUPPORTED: cannot answer'']) =
     (\<lparr>sql = None, answer = ''An error occurred while processing your question.'',
       error = Some ''Only SELECT statements are allowed.'', columns = None, rows = None\<rparr>,
      \<lparr>calls = [LlmCall ''What is the weather?''], world = []\<rparr>) \<and>
   fst (process_question (scripted_env (Inr (Some ([''1''], [[1]])))) ''What is the weather?'' True None
       (start [Inr ''UNSUPPORTED: cannot answer''])) \<noteq> refusal_response"
proof -
  have c: "contains ''UNSUPPORTED'' (upper (strip ''UNSUPPORTED: cannot answer''))"
    by code_simp
  have s: "clean_sql ''UNSUPPORTED: cannot answer'' = ''UNSUPPORTED''"
    using c by (simp add: clean_sql_def)
  have p: "process_question (scripted_env (Inr (Some ([''1''], [[1]])))) ''What is the weather?'' True None
       (start [Inr ''UNSUPPORTED: cannot answer'']) =
     (\<lparr>sql = None, answer = ''An error occurred while processing your question.'',
       error = Some ''Only SELECT statements are allowed.'', columns = None, rows = None\<rparr>,
      \<lparr>calls = [LlmCall ''What is the weather?''], world = []\<rparr>)"
    using unsupported_completion_rejected [of "scripted_env (Inr (Some ([''1''], [[1]])))"
        "''What is the weather?''" "start [Inr ''UNSUPPORTED: cannot answer'']"
        "''What is the weather?''" "[Inr ''UNSUPPORTED: cannot answer'']"
        "''UNSUPPORTED: cannot answer''" "[]" True None] c
    by (simp add: scripted_env_def start_def failure_response_def record_call_def)
  show ?thesis
    using s p by (simp add: refusal_response_def)
qed


section \<open>The executor behind the gate\<close>

text \<open>
  C9. On the empty statement the executor raises
  \<^verbatim>\<open>ValueError("Generated SQL was empty after sanitization.")\<close> and nothing reaches the store.
  A statement that has passed the safety gate is not empty, and neither is what the limit
  enforcer makes of it; on both the executor goes past the check and hands the statement
  to the store, so the error branch is not taken.
\<close>

theorem empty_sql_branch_unreachable:
  "execute_sql env [] st = (Inl (ValueError ''Generated SQL was empty after sanitization.''), st) \<and>
   (enforce_select_only s = Inr s' \<longrightarrow>
      s' \<noteq> [] \<and> apply_limit s' lim \<noteq> [] \<and>
      calls (snd (execute_sql env s' st)) = calls st @ [DbExec s'] \<and>
      calls (snd (execute_sql env (apply_limit s' lim) st)) = calls st @ [DbExec (apply_limit s' lim)])"
proof -
  have "execute_sql env [] st = (Inl (ValueError ''Generated SQL was empty after sanitization.''), st)"
    by (simp add: execute_sql_def)
  moreover have "s' \<noteq> []" if "enforce_select_only s = Inr s'"
    using that select_nonempty [of s'] by (auto simp add: enforce_select_only_def split: if_splits)
  ultimately show ?thesis
    by (simp add: apply_limit_nonempty execute_sql_calls)
qed

theorem empty_sql_branch_unreachable_witness:
  "enforce_select_only ''SELECT 1;'' = Inr ''SELECT 1;'' \<and>
   apply_limit ''SELECT 1;'' (Some 10) = ''SELECT 1 LIMIT 10;'' \<and>
   calls (snd (execute_sql (scripted_env (Inr (Some ([''1''], [[1]])))) ''SELECT 1 LIMIT 10;'' (start []))) =
     [DbExec ''SELECT 1 LIMIT 10;'']"
proof -
  have h: "enforce_select_only ''SELECT 1;'' = Inr ''SELECT 1;''"
    by code_simp
  have l: "apply_limit ''SELECT 1;'' (Some 10) = ''SELECT 1 LIMIT 10;''"
    by code_simp
  show ?thesis
    using h l empty_sql_branch_unreachable [of "scripted_env (Inr (Some ([''1''], [[1]])))" "start []"
        "''SELECT 1;''" "''SELECT 1;''" "Some 10"]
    by (simp add: start_def)
qed


section \<open>The result summarizer\<close>

lemma one_by_one: "length rws = 1 \<and> length (hd rws) = 1 \<longleftrightarrow> (\<exists>v. rws = [[v]])"
proof
  assume a: "length rws = 1 \<and> length (hd rws) = 1"
  then obtain r where r: "rws = [r]"
    by (cases rws) auto
  with a obtain v where "r = [v]"
    by (cases r) auto
  with r show "\<exists>v. rws = [[v]]" by simp
next
  assume "\<exists>v. rws = [[v]]"
  then show "length rws = 1 \<and> length (hd rws) = 1" by auto
qed

lemma process_question_success:
  assumes "generate_sql env q 5 st = (Inr s1, st1)"
      and "execute_sql env (apply_limit s1 lim) st1 = (Inr (cols, rws), st2)"
  shows "process_question env q rt lim st =
           (if rt then
              (\<lparr>sql = Some (apply_limit s1 lim), answer = fst (summarize_table env q cols rws st2),
                error = None, columns = Some cols, rows = Some rws\<rparr>,
               snd (summarize_table env q cols rws st2))
            else
              (\<lparr>sql = Some (apply_limit s1 lim), answer = format_rows_for_answer (str_of env) rws,
                error = None, columns = None, rows = None\<rparr>, st2))"
proof -
  have "upper (strip s1) \<noteq> ''UNSUPPORTED''"
    using assms(1) generate_sql_accepts select_not_sentinel by blast
  then show ?thesis
    using assms by (simp add: process_question_def Let_def split: prod.splits)
qed

text \<open>
  C7. Terse mode depends on the rows alone and has three outcomes: "No rows matched your
  query." for no rows; "The result is v." for one row of one value v; and in every other
  case "Found n row(s). Showing top min(n, 5)." for n rows. It makes no call: in a
  successful request without table, the state after the request is the state the
  executor left.
\<close>

theorem format_rows_three_outcomes:
  "(rws = [] \<longrightarrow> format_rows_for_answer to_str rws = ''No rows matched your query.'') \<and>
   (rws = [[v]] \<longrightarrow> format_rows_for_answer to_str rws = ''The result is '' @ to_str v @ ''.'') \<and>
   (rws \<noteq> [] \<and> (\<forall>x. rws \<noteq> [[x]]) \<longrightarrow>
      format_rows_for_answer to_str rws =
        ''Found '' @ str_nat (length rws) @ '' row(s). Showing top '' @ str_nat (min (length rws) 5) @ ''.'') \<and>
   (generate_sql env q 5 st = (Inr s1, st1) \<and>
    execute_sql env (apply_limit s1 lim) st1 = (Inr (cols, rws), st2) \<longrightarrow>
      process_question env q False lim st =
        (\<lparr>sql = Some (apply_limit s1 lim), answer = format_rows_for_answer (str_of env) rws,
          error = None, columns = None, rows = None\<rparr>, st2))"
proof -
  have "format_rows_for_answer to_str rws =
          ''Found '' @ str_nat (length rws) @ '' row(s). Showing top '' @ str_nat (min (length rws) 5) @ ''.''"
    if "rws \<noteq> []" and "\<forall>x. rws \<noteq> [[x]]"
    using that one_by_one [of rws] by (simp add: format_rows_for_answer_def)
  then show ?thesis
    by (simp add: format_rows_for_answer_def process_question_success)
qed

theorem format_rows_three_outcomes_witness:
  "format_rows_for_answer str_int [] = ''No rows matched your query.'' \<and>
   format_rows_for_answer str_int [[1]] = ''The result is 1.'' \<and>
   format_rows_for_answer str_int [[1], [2], [3], [4], [5], [6], [7]] = ''Found 7 row(s). Showing top 5.'' \<and>
   format_rows_for_answer str_int [[1, 2]] = ''Found 1 row(s). Showing top 1.'' \<and>
   process_question (scripted_env (Inr (Some ([''1''], [[1]])))) ''How many?'' False None
       (start [Inr ''SELECT 1;'']) =
     (\<lparr>sql = Some ''SELECT 1;'', answer = ''The result is 1.'', error = None,
       columns = None, rows = None\<rparr>,
      \<lparr>calls = [LlmCall ''How many?'', DbExec ''SELECT 1;''], world = []\<rparr>)"
proof -
  let ?env = "scripted_env (Inr (Some ([''1''], [[1]])))"
  let ?st = "start [Inr ''SELECT 1;'']"
  let ?st1 = "\<lparr>calls = [LlmCall ''How many?''], world = []\<rparr> :: (error + string) list state"
  let ?st2 = "\<lparr>calls = [LlmCall ''How many?'', DbExec ''SELECT 1;''], world = []\<rparr>
                :: (error + string) list state"
  have n: "str_nat (Suc (Suc (Suc (Suc (Suc (Suc (Suc 0))))))) = ''7''"
    "str_nat (Suc (Suc (Suc (Suc (Suc 0))))) = ''5''" "str_nat (Suc 0) = ''1''" "str_int 1 = ''1''"
    by code_simp+
  have c: "clean_sql ''SELECT 1;'' = ''SELECT 1;''"
    by code_simp
  have e: "enforce_select_only ''SELECT 1;'' = Inr ''SELECT 1;''"
    by code_simp
  have g: "generate_sql ?env ''How many?'' 5 ?st = (Inr ''SELECT 1;'', ?st1)"
    by (simp add: generate_sql_def scripted_env_def start_def record_call_def c e)
  have x: "execute_sql ?env (apply_limit ''SELECT 1;'' None) ?st1 = (Inr ([''1''], [[1]]), ?st2)"
    by (simp add: execute_sql_def apply_limit_def scripted_env_def record_call_def)
  have s: "str_of ?env = str_int"
    by (simp add: scripted_env_def)
  have p: "process_question ?env ''How many?'' False None ?st =
     (\<lparr>sql = Some ''SELECT 1;'', answer = ''The result is 1.'', error = None,
       columns = None, rows = None\<rparr>, ?st2)"
    using format_rows_three_outcomes [where rws = "[[1]]" and v = 1 and to_str = str_int
        and env = ?env and q = "''How many?''" and st = ?st and ?s1.0 = "''SELECT 1;''"
        and ?st1.0 = ?st1 and lim = None and cols = "[''1'']" and ?st2.0 = ?st2] g x
    by (simp add: n s apply_limit_def)
  show ?thesis
    using format_rows_three_outcomes [where rws = "[]" and to_str = str_int, THEN conjunct1]
      format_rows_three_outcomes [where rws = "[[1]]" and v = 1 and to_str = str_int,
        THEN conjunct2, THEN conjunct1]
      format_rows_three_outcomes [where rws = "[[1], [2], [3], [4], [5], [6], [7]]" and to_str = str_int,
        THEN conjunct2, THEN conjunct2, THEN conjunct1]
      format_rows_three_outcomes [where rws = "[[1, 2]]" and to_str = str_int,
        THEN conjunct2, THEN conjunct2, THEN conjunct1]
      p
    by (simp add: n)
qed

text \<open>
  C8. Narrative mode never fails the request. With no columns or no rows
  \<^verbatim>\<open>_summarize_table\<close> returns "There was no data to summarize." and leaves the state as it
  is, so the model is not called. When the model raises on the summary prompt, the answer
  is "Here is the data as requested.". Whenever generation and execution have succeeded,
  the response of \<^verbatim>\<open>process_question\<close> with table carries the statement, the table and no
  error, whatever the model does on the summary prompt.
\<close>

theorem summarization_never_fails_request:
  "(cols = [] \<or> rws = [] \<longrightarrow>
      summarize_table env q cols rws st2 = (''There was no data to summarize.'', st2)) \<and>
   (cols \<noteq> [] \<and> rws \<noteq> [] \<and>
    llm_predict env (summary_prompt (str_of env) q cols rws) (world st2) = (Inl exc, w3) \<longrightarrow>
      fst (summarize_table env q cols rws st2) = ''Here is the data as requested.'') \<and>
   (generate_sql env q 5 st = (Inr s1, st1) \<and>
    execute_sql env (apply_limit s1 lim) st1 = (Inr (cols, rws), st2) \<longrightarrow>
      fst (process_question env q True lim st) =
        \<lparr>sql = Some (apply_limit s1 lim), answer = fst (summarize_table env q cols rws st2),
         error = None, columns = Some cols, rows = Some rws\<rparr>)"
  by (auto simp add: summarize_table_def process_question_success)

theorem summarization_never_fails_request_witness:
  "fst (process_question (scripted_env (Inr (Some ([''1''], [[1]])))) ''How many?'' True None
       (start [Inr ''SELECT 1;'', Inl (External ''rate limit exceeded'')])) =
     \<lparr>sql = Some ''SELECT 1;'', answer = ''Here is the data as requested.'', error = None,
      columns = Some [''1''], rows = Some [[1]]\<rparr> \<and>
   summarize_table (scripted_env (Inr None)) ''How many?'' [] []
       (start [Inl (External ''rate limit exceeded'')]) =
     (''There was no data to summarize.'', start [Inl (External ''rate limit exceeded'')])"
proof -
  let ?env = "scripted_env (Inr (Some ([''1''], [[1]])))"
  let ?st = "start [Inr ''SELECT 1;'', Inl (External ''rate limit exceeded'')]"
  let ?st1 = "\<lparr>calls = [LlmCall ''How many?''], world = [Inl (External ''rate limit exceeded'')]\<rparr>"
  let ?st2 = "\<lparr>calls = [LlmCall ''How many?'', DbExec ''SELECT 1;''],
               world = [Inl (External ''rate limit exceeded'')]\<rparr>"
  have c: "clean_sql ''SELECT 1;'' = ''SELECT 1;''"
    by code_simp
  have e: "enforce_select_only ''SELECT 1;'' = Inr ''SELECT 1;''"
    by code_simp
  have g: "generate_sql ?env ''How many?'' 5 ?st = (Inr ''SELECT 1;'', ?st1)"
    by (simp add: generate_sql_def scripted_env_def start_def record_call_def c e)
  have x: "execute_sql ?env (apply_limit ''SELECT 1;'' None) ?st1 = (Inr ([''1''], [[1]]), ?st2)"
    by (simp add: execute_sql_def apply_limit_def scripted_env_def record_call_def)
  have l: "llm_predict ?env (summary_prompt (str_of ?env) ''How many?'' [''1''] [[1]]) (world ?st2) =
             (Inl (External ''rate limit exceeded''), [])"
    by (simp add: scripted_env_def)
  show ?thesis
    using summarization_never_fails_request [of "[''1'']" "[[1]]" ?env "''How many?''" ?st2
        "External ''rate limit exceeded''" "[]" ?st "''SELECT 1;''" ?st1 None] g x l
      summarization_never_fails_request [of "[]" "[]" "scripted_env (Inr None)" "''How many?''"
        "start [Inl (External ''rate limit exceeded'')]"]
    by (simp add: apply_limit_def)
qed


section \<open>The sanitizer\<close>

text \<open>
  C5. For a completion without "UNSUPPORTED" (any case), let \<open>body\<close> be the stripped text
  after the fences and labels have been removed (lines 41 to 49). The sanitizer returns
  the empty text exactly when \<open>body\<close> holds nothing but whitespace and semicolons. Otherwise
  \<open>body\<close> is \<open>pre @ seg @ post\<close>, where \<open>pre\<close> holds only whitespace and semicolons and ends
  with a semicolon unless it is empty, \<open>seg\<close> is free of semicolons and not blank, and \<open>post\<close>
  is empty or starts with a semicolon; the result is the trimmed \<open>seg\<close> with one semicolon
  appended, whatever \<open>post\<close> holds. A non-empty result therefore has at least two
  characters, does not start with whitespace, ends with a semicolon and contains no other
  semicolon: it is one statement, and nothing behind the semicolon that ends it is kept.
  A statement that the safety gate then accepts is this result and is not empty.
\<close>

theorem clean_sql_first_statement:
  assumes "\<not> contains ''UNSUPPORTED'' (upper (strip raw))"
      and "body = strip_labels (strip_fences (strip raw))"
  shows "((blank body \<and> clean_sql raw = []) \<or>
          (\<exists>pre seg post. stmt_at body pre seg post \<and> clean_sql raw = strip seg @ '';'')) \<and>
         (clean_sql raw = [] \<longleftrightarrow> blank body) \<and>
         (clean_sql raw \<noteq> [] \<longrightarrow>
            last (clean_sql raw) = CHR '';'' \<and>
            length (filter (\<lambda>c. c = CHR '';'') (clean_sql raw)) = 1 \<and>
            2 \<le> length (clean_sql raw) \<and>
            \<not> isspace (hd (clean_sql raw))) \<and>
         (enforce_select_only (clean_sql raw) = Inr stmt \<longrightarrow> stmt = clean_sql raw \<and> stmt \<noteq> [])"
proof -
  have c: "clean_sql raw = first_statement body"
    using assms by (simp add: clean_sql_def)
  have g: "enforce_select_only (clean_sql raw) = Inr stmt \<longrightarrow> stmt = clean_sql raw \<and> stmt \<noteq> []"
    using select_nonempty [of "clean_sql raw"]
    by (auto simp add: enforce_select_only_def split: if_splits)
  from first_statement_shape [of body] show ?thesis
  proof
    assume "blank body \<and> first_statement body = []"
    then show ?thesis using g by (simp add: c)
  next
    assume "\<exists>pre seg post. stmt_at body pre seg post \<and> first_statement body = strip seg @ '';''"
    then obtain pre seg post where st: "stmt_at body pre seg post"
      and fs: "first_statement body = strip seg @ '';''"
      by (elim exE conjE)
    from st have ne: "strip seg \<noteq> []" and ns: "CHR '';'' \<notin> set seg"
      by (simp_all add: stmt_at_def)
    have 1: "\<exists>pre seg post. stmt_at body pre seg post \<and> clean_sql raw = strip seg @ '';''"
      using st fs unfolding c by (intro exI conjI)
    have 2: "\<not> blank body"
      using st by (rule stmt_at_not_blank)
    have 3: "clean_sql raw \<noteq> []"
      by (simp add: c fs)
    show ?thesis
      using 1 2 3 g statement_form [OF ne ns] unfolding c fs by simp
  qed
qed

theorem clean_sql_first_statement_witness:
  "\<not> contains ''UNSUPPORTED'' (upper (strip ''SELECT 1 ; DROP TABLE periods; DELETE FROM x'')) \<and>
   clean_sql ''SELECT 1 ; DROP TABLE periods; DELETE FROM x'' = ''SELECT 1;'' \<and>
   length (filter (\<lambda>c. c = CHR '';'') (clean_sql ''SELECT 1 ; DROP TABLE periods; DELETE FROM x'')) = 1 \<and>
   enforce_select_only (clean_sql ''SELECT 1 ; DROP TABLE periods; DELETE FROM x'') = Inr ''SELECT 1;'' \<and>
   clean_sql '' ; ;'' = [] \<and> blank (strip_labels (strip_fences (strip '' ; ;'')))"
proof -
  have h1: "\<not> contains ''UNSUPPORTED'' (upper (strip ''SELECT 1 ; DROP TABLE periods; DELETE FROM x''))"
    by code_simp
  have h2: "\<not> contains ''UNSUPPORTED'' (upper (strip '' ; ;''))"
    by code_simp
  have v1: "clean_sql ''SELECT 1 ; DROP TABLE periods; DELETE FROM x'' = ''SELECT 1;''"
    by code_simp
  have v2: "clean_sql '' ; ;'' = []"
    by code_simp
  have v3: "enforce_select_only ''SELECT 1;'' = Inr ''SELECT 1;''"
    by code_simp
  show ?thesis
    using h1 v1 v2 v3 clean_sql_first_statement [OF h1 refl, of "''SELECT 1;''"]
      clean_sql_first_statement [OF h2 refl, of "[]"]
    by simp
qed

text \<open>
  C6, as stated: for every completion wrapped in a fenced code block, with or without a
  language tag, the sanitizer strips both fences and yields only the inner content. This
  fails for a tag that is not made of ASCII letters and digits: on the block tagged
  "t-sql" the substitution of line 46, whose tag class is \<^verbatim>\<open>[a-zA-Z0-9]*\<close>, removes the
  backticks and the "t" only, the rest of the tag stays in the text, and the statement
  returned starts with "-sql" and is rejected by the safety gate.
\<close>

theorem fenced_block_hyphen_tag:
  "strip_fences (strip ''```t-sql\<newline>SELECT 1;\<newline>```'') = ''-sql\<newline>SELECT 1;'' \<and>
   strip_fences (strip ''```t-sql\<newline>SELECT 1;\<newline>```'') \<noteq> strip ''SELECT 1;\<newline>'' \<and>
   clean_sql ''```t-sql\<newline>SELECT 1;\<newline>```'' = ''-sql\<newline>SELECT 1;'' \<and>
   clean_sql ''```t-sql\<newline>SELECT 1;\<newline>```'' \<noteq> ''SELECT 1;'' \<and>
   enforce_select_only (clean_sql ''```t-sql\<newline>SELECT 1;\<newline>```'') =
     Inl (ValueError ''Only SELECT statements are allowed.'')"
proof -
  have a: "strip_fences (strip ''```t-sql\<newline>SELECT 1;\<newline>```'') = ''-sql\<newline>SELECT 1;''"
    by code_simp
  have b: "strip ''SELECT 1;\<newline>'' = ''SELECT 1;''"
    by code_simp
  have c: "clean_sql ''```t-sql\<newline>SELECT 1;\<newline>```'' = ''-sql\<newline>SELECT 1;''"
    by code_simp
  have d: "enforce_select_only ''-sql\<newline>SELECT 1;'' =
      Inl (ValueError ''Only SELECT statements are allowed.'')"
    by code_simp
  show ?thesis
    unfolding a b c d by simp
qed

text \<open>
  C6, amended: the claim holds for the fenced blocks whose language tag is empty or made
  of ASCII letters and digits only. Such a completion is: three backticks, the tag, a
  whitespace character \<open>c\<close> (the line break that ends the fence line), the inner content,
  three backticks; whitespace may surround the block. If it does not contain
  "UNSUPPORTED", the two fence substitutions leave exactly the trimmed inner content, and
  the sanitizer returns the first statement of that content (after the label
  substitutions). The completion of scenario A sanitizes to "SELECT 1;".
\<close>

theorem fenced_block_stripped:
  assumes "\<forall>x\<in>set tag. ascii_alnum x" and "isspace c"
      and "\<forall>x\<in>set pad1. isspace x" and "\<forall>x\<in>set pad2. isspace x"
      and "raw = pad1 @ ''```'' @ tag @ c # inner @ ''```'' @ pad2"
      and "\<not> contains ''UNSUPPORTED'' (upper (strip raw))"
  shows "strip_fences (strip raw) = strip inner \<and>
         clean_sql raw = first_statement (strip_labels (strip inner))"
proof -
  let ?fenced = "''```'' @ tag @ c # inner @ ''```''"
  have "last ?fenced = CHR 0x60"
    by simp
  then have "strip (pad1 @ ?fenced @ pad2) = ?fenced"
    using assms(3,4) by (intro strip_padded) (simp_all add: backtick_not_space)
  then have s: "strip raw = ?fenced"
    by (simp add: assms(5))
  have f: "strip_fences (strip raw) = strip inner"
    unfolding s using assms(1,2) by (rule strip_fences_fenced)
  from assms(6) have "clean_sql raw = first_statement (strip_labels (strip_fences (strip raw)))"
    by (simp add: clean_sql_def)
  with f show ?thesis by simp
qed

theorem fenced_block_stripped_witness:
  "clean_sql ''```sql\<newline>SELECT 1;\<newline>```'' = ''SELECT 1;'' \<and>
   strip_fences (strip ''```sql\<newline>SELECT 1;\<newline>```'') = ''SELECT 1;'' \<and>
   clean_sql '' ```\<newline>select a from t\<newline>```\<newline>'' = ''select a from t;''"
proof -
  have t: "\<forall>x\<in>set ''sql''. ascii_alnum x" "\<forall>x\<in>set ''''. ascii_alnum x"
    by (simp_all add: ascii_alnum_def)
  have c: "isspace CHR ''\<newline>''" "\<forall>x\<in>set '' ''. isspace x" "\<forall>x\<in>set ''\<newline>''. isspace x"
    "\<forall>x\<in>set ''''. isspace x"
    by (simp_all add: isspace_def)
  have u1: "\<not> contains ''UNSUPPORTED'' (upper (strip ''```sql\<newline>SELECT 1;\<newline>```''))"
    by code_simp
  have u2: "\<not> contains ''UNSUPPORTED'' (upper (strip '' ```\<newline>select a from t\<newline>```\<newline>''))"
    by code_simp
  have v1: "strip ''SELECT 1;\<newline>'' = ''SELECT 1;''"
    "first_statement (strip_labels ''SELECT 1;'') = ''SELECT 1;''"
    by code_simp+
  have v2: "first_statement (strip_labels (strip ''select a from t\<newline>'')) = ''select a from t;''"
    by code_simp
  show ?thesis
    using fenced_block_stripped [OF t(1) c(1) c(4) c(4) _ u1, of "''SELECT 1;\<newline>''"]
      fenced_block_stripped [OF t(2) c(1) c(2) c(3) _ u2, of "''select a from t\<newline>''"]
    by (simp add: v1 v2)
qed


section \<open>The limit enforcer\<close>

text \<open>
  C3, as stated: without a limit, or with a LIMIT clause present, the statement is
  returned unchanged; otherwise one trailing semicolon is stripped and " LIMIT k;" is
  appended. The last part fails on "SELECT 1;;" with limit 5: the source strips every
  trailing semicolon (\<^verbatim>\<open>rstrip(";")\<close>) and returns "SELECT 1 LIMIT 5;", where the claim
  gives "SELECT 1; LIMIT 5;".
\<close>

theorem apply_limit_strips_every_semicolon:
  "apply_limit ''SELECT 1;;'' (Some 5) = ''SELECT 1 LIMIT 5;'' \<and>
   apply_limit_as_specified ''SELECT 1;;'' (Some 5) = ''SELECT 1; LIMIT 5;'' \<and>
   apply_limit ''SELECT 1;;'' (Some 5) \<noteq> apply_limit_as_specified ''SELECT 1;;'' (Some 5)"
proof -
  have a: "apply_limit ''SELECT 1;;'' (Some 5) = ''SELECT 1 LIMIT 5;''"
    by code_simp
  have b: "apply_limit_as_specified ''SELECT 1;;'' (Some 5) = ''SELECT 1; LIMIT 5;''"
    by code_simp
  show ?thesis
    unfolding a b by simp
qed

text \<open>
  C3, amended: \<^verbatim>\<open>_apply_limit\<close> returns the statement unchanged when the limit is \<^verbatim>\<open>None\<close> or
  0, and when the statement has a LIMIT clause (the word in any case at a word boundary,
  whitespace, digits, a word boundary). Otherwise it removes the trailing whitespace and
  then every trailing semicolon, and appends " LIMIT k;": for the statement split into
  \<open>base\<close>, trailing semicolons and trailing whitespace, the result is \<open>base\<close> followed by
  " LIMIT k;". Every statement has such a split.
\<close>

theorem apply_limit_behaviour:
  "(lim = None \<or> lim = Some 0 \<longrightarrow> apply_limit s lim = s) \<and>
   (has_limit_clause s \<longrightarrow> apply_limit s lim = s) \<and>
   (lim = Some k \<and> k \<noteq> 0 \<and> \<not> has_limit_clause s \<and> tail_split s base semis ws \<longrightarrow>
      apply_limit s lim = base @ '' LIMIT '' @ str_int k @ '';'') \<and>
   (\<exists>base semis ws. tail_split s base semis ws)"
proof -
  have 1: "apply_limit s lim = s" if "lim = None \<or> lim = Some 0"
    using that by (auto simp add: apply_limit_def)
  have 2: "apply_limit s lim = s" if "has_limit_clause s"
    using that unfolding re_search_limit_iff [symmetric]
    by (simp add: apply_limit_def split: option.splits)
  have 3: "apply_limit s lim = base @ '' LIMIT '' @ str_int k @ '';''"
    if "lim = Some k" and "k \<noteq> 0" and "\<not> has_limit_clause s" and "tail_split s base semis ws"
  proof -
    from that(3) have "\<not> re_search limit_pat s"
      unfolding re_search_limit_iff .
    with that(1,2) tail_split_result [OF that(4)] show ?thesis
      by (simp add: apply_limit_def)
  qed
  show ?thesis
  proof (intro conjI impI)
    assume "lim = None \<or> lim = Some 0"
    then show "apply_limit s lim = s" by (rule 1)
  next
    assume "has_limit_clause s"
    then show "apply_limit s lim = s" by (rule 2)
  next
    assume "lim = Some k \<and> k \<noteq> 0 \<and> \<not> has_limit_clause s \<and> tail_split s base semis ws"
    then show "apply_limit s lim = base @ '' LIMIT '' @ str_int k @ '';''"
      by (intro 3) simp_all
  next
    show "\<exists>base semis ws. tail_split s base semis ws"
      by (rule tail_split_exists)
  qed
qed

theorem apply_limit_behaviour_witness:
  "\<not> has_limit_clause ''SELECT * FROM volumes'' \<and>
   tail_split ''SELECT * FROM volumes ; '' ''SELECT * FROM volumes '' '';'' '' '' \<and>
   apply_limit ''SELECT * FROM volumes ; '' (Some 10) = ''SELECT * FROM volumes  LIMIT 10;'' \<and>
   apply_limit ''SELECT * FROM volumes'' (Some 10) = ''SELECT * FROM volumes LIMIT 10;'' \<and>
   has_limit_clause ''SELECT * FROM volumes LIMIT 10;'' \<and>
   apply_limit ''SELECT * FROM volumes LIMIT 10;'' (Some 10) = ''SELECT * FROM volumes LIMIT 10;'' \<and>
   apply_limit ''SELECT * FROM volumes'' None = ''SELECT * FROM volumes''"
proof -
  have n1: "\<not> has_limit_clause ''SELECT * FROM volumes''"
    unfolding re_search_limit_iff [symmetric] by code_simp
  have n2: "\<not> has_limit_clause ''SELECT * FROM volumes ; ''"
    unfolding re_search_limit_iff [symmetric] by code_simp
  have h: "has_limit_clause ''SELECT * FROM volumes LIMIT 10;''"
    unfolding re_search_limit_iff [symmetric] by code_simp
  have t1: "tail_split ''SELECT * FROM volumes ; '' ''SELECT * FROM volumes '' '';'' '' ''"
    by (simp add: tail_split_def isspace_def)
  have t2: "tail_split ''SELECT * FROM volumes'' ''SELECT * FROM volumes'' [] []"
    by (simp add: tail_split_def isspace_def)
  have k: "str_int 10 = ''10''"
    by code_simp
  have a: "apply_limit ''SELECT * FROM volumes ; '' (Some 10) = ''SELECT * FROM volumes  LIMIT 10;''"
    using apply_limit_behaviour [of "Some 10" "''SELECT * FROM volumes ; ''" 10 "''SELECT * FROM volumes ''"
        "'';''" "'' ''"] n2 t1
    by (simp add: k)
  have b: "apply_limit ''SELECT * FROM volumes'' (Some 10) = ''SELECT * FROM volumes LIMIT 10;''"
    using apply_limit_behaviour [of "Some 10" "''SELECT * FROM volumes''" 10 "''SELECT * FROM volumes''"
        "[]" "[]"] n1 t2
    by (simp add: k)
  have c: "apply_limit ''SELECT * FROM volumes LIMIT 10;'' (Some 10) = ''SELECT * FROM volumes LIMIT 10;''"
    using apply_limit_behaviour [of "Some 10" "''SELECT * FROM volumes LIMIT 10;''"] h
    by simp
  have d: "apply_limit ''SELECT * FROM volumes'' None = ''SELECT * FROM volumes''"
    using apply_limit_behaviour [of None "''SELECT * FROM volumes''"]
    by simp
  from n1 t1 a b h c d show ?thesis
    by (intro conjI)
qed

text \<open>
  C4. The claim is that applying the limit enforcer twice with the same limit gives the
  same as applying it once. With the limit -1 the appended clause is "LIMIT -1", which
  the search for \<^verbatim>\<open>limit\s+\d+\<close> does not recognise, and the second application appends
  a second clause. Lemma \<open>apply_limit_idempotent_nonneg\<close> shows that this happens for
  negative limits only.
\<close>

theorem apply_limit_twice_negative:
  "apply_limit ''SELECT 1'' (Some (- 1)) = ''SELECT 1 LIMIT -1;'' \<and>
   apply_limit (apply_limit ''SELECT 1'' (Some (- 1))) (Some (- 1)) = ''SELECT 1 LIMIT -1 LIMIT -1;'' \<and>
   apply_limit (apply_limit ''SELECT 1'' (Some (- 1))) (Some (- 1)) \<noteq> apply_limit ''SELECT 1'' (Some (- 1))"
proof -
  have a: "apply_limit ''SELECT 1'' (Some (- 1)) = ''SELECT 1 LIMIT -1;''"
    by code_simp
  have b: "apply_limit ''SELECT 1 LIMIT -1;'' (Some (- 1)) = ''SELECT 1 LIMIT -1 LIMIT -1;''"
    by code_simp
  show ?thesis
    unfolding a b by simp
qed


end
